theory Spec2Isabelle
  imports Complex_Main "HOL-Library.Word" "HOL-Library.Monad_Syntax" "HOL-Library.Sublist"
    "HOL-Library.Multiset"
begin

unbundle bit_operations_syntax

section \<open>JavaScript values\<close>

text \<open>
  The runtime prologue of \<^verbatim>\<open>src/bundle.js\<close> compares, stores and passes around
  arbitrary JavaScript values. A number is a double: every finite double is a rational,
  and the only operation the runtime applies to numbers is equality, under which
  \<open>+0\<close> and \<open>-0\<close> coincide, so both zeros are \<open>Fin 0\<close>. Objects and functions are
  references, compared by identity.
\<close>

datatype jsnum = NaN | PosInf | NegInf | Fin rat

datatype jsval =
    Undefined
  | Null
  | Boolean bool
  | Number jsnum
  | String string
  | BigInt int
  | Symbol nat
  | Object nat
  | Function nat

text \<open>The \<^verbatim>\<open>typeof\<close> operator.\<close>

fun typeof :: "jsval \<Rightarrow> string" where
  "typeof Undefined = ''undefined''"
| "typeof Null = ''object''"
| "typeof (Boolean _) = ''boolean''"
| "typeof (Number _) = ''number''"
| "typeof (String _) = ''string''"
| "typeof (BigInt _) = ''bigint''"
| "typeof (Symbol _) = ''symbol''"
| "typeof (Object _) = ''object''"
| "typeof (Function _) = ''function''"

text \<open>ToBoolean: the falsy values are undefined, null, false, NaN, zero, the empty string and 0n.\<close>

fun truthy :: "jsval \<Rightarrow> bool" where
  "truthy Undefined = False"
| "truthy Null = False"
| "truthy (Boolean b) = b"
| "truthy (Number n) = (n \<noteq> NaN \<and> n \<noteq> Fin 0)"
| "truthy (String s) = (s \<noteq> [])"
| "truthy (BigInt i) = (i \<noteq> 0)"
| "truthy (Symbol _) = True"
| "truthy (Object _) = True"
| "truthy (Function _) = True"

text \<open>Strict equality \<^verbatim>\<open>===\<close>: same type and same value, except that NaN equals nothing.\<close>

definition strict_equals :: "jsval \<Rightarrow> jsval \<Rightarrow> bool" where
  "strict_equals a b = (a = b \<and> a \<noteq> Number NaN)"

text \<open>
  Loose equality \<^verbatim>\<open>==\<close> is used by the runtime in two shapes only: a value against itself
  (\<^verbatim>\<open>a != a\<close>, \<^verbatim>\<open>b == b\<close>), where both operands have the same type and the comparison is
  the strict one, and a value against \<^verbatim>\<open>null\<close> (\<^verbatim>\<open>value == null\<close>), which holds for
  null and undefined only.
\<close>

definition loose_equals_self :: "jsval \<Rightarrow> bool" where
  "loose_equals_self a = strict_equals a a"

definition loose_equals_null :: "jsval \<Rightarrow> bool" where
  "loose_equals_null v = (v = Null \<or> v = Undefined)"

text \<open>The operators \<^verbatim>\<open>&&\<close> and \<^verbatim>\<open>||\<close> return one of their operands.\<close>

definition js_and :: "jsval \<Rightarrow> jsval \<Rightarrow> jsval" where
  "js_and a b = (if truthy a then b else a)"

definition js_or :: "jsval \<Rightarrow> jsval \<Rightarrow> jsval" where
  "js_or a b = (if truthy a then a else b)"

subsection \<open>The change test\<close>

text \<open>
  \<^verbatim>\<open>function safe_not_equal(a, b) {
    return a != a ? b == b : a !== b || ((a && typeof a === 'object') || typeof a === 'function');
  }\<close>
\<close>

definition safe_not_equal :: "jsval \<Rightarrow> jsval \<Rightarrow> jsval" where
  "safe_not_equal a b =
     (if \<not> loose_equals_self a then Boolean (loose_equals_self b)
      else js_or (Boolean (\<not> strict_equals a b))
             (js_or (js_and a (Boolean (typeof a = ''object'')))
                    (Boolean (typeof a = ''function''))))"

section \<open>DOM helpers\<close>

text \<open>
  A text node among its siblings: \<^verbatim>\<open>wholeText\<close> is the text of the node together with
  the text nodes logically adjacent to it, so it is the node's own \<^verbatim>\<open>data\<close> between
  the text before and after it.
\<close>

record text_node =
  text_before :: string
  data :: string
  text_after :: string

definition wholeText :: "text_node \<Rightarrow> string" where
  "wholeText t = text_before t @ data t @ text_after t"

text \<open>An element, as far as \<^verbatim>\<open>attr\<close> sees it: its attributes.\<close>

record element =
  attributes :: "string \<rightharpoonup> string"

text \<open>The mutating calls a helper makes on the DOM, in order (what a mutation spy records).\<close>

datatype dom_op =
    Write_data string
  | Remove_attribute string
  | Set_attribute string string

text \<open>
  \<^verbatim>\<open>'' + data\<close> and the conversion inside \<^verbatim>\<open>setAttribute\<close> are the language's ToString;
  it is a parameter \<open>str\<close> of the helpers, \<open>None\<close> where the conversion throws
  (a symbol, an object whose \<^verbatim>\<open>toString\<close> throws).

  \<^verbatim>\<open>function set_data(text, data) {
    data = '' + data;
    if (text.wholeText !== data)
        text.data = data;
  }\<close>
\<close>

definition set_data :: "(jsval \<Rightarrow> string option) \<Rightarrow> text_node \<Rightarrow> jsval \<Rightarrow> (text_node \<times> dom_op list) option" where
  "set_data str t d =
     (case str d of
        None \<Rightarrow> None
      | Some d' \<Rightarrow>
          if \<not> strict_equals (String (wholeText t)) (String d')
          then Some (t\<lparr>data := d'\<rparr>, [Write_data d'])
          else Some (t, []))"

text \<open>\<^verbatim>\<open>getAttribute\<close> answers null for a missing attribute.\<close>

definition getAttribute :: "element \<Rightarrow> string \<Rightarrow> jsval" where
  "getAttribute e a = (case attributes e a of None \<Rightarrow> Null | Some s \<Rightarrow> String s)"

text \<open>
  \<^verbatim>\<open>function attr(node, attribute, value) {
    if (value == null)
        node.removeAttribute(attribute);
    else if (node.getAttribute(attribute) !== value)
        node.setAttribute(attribute, value);
  }\<close>
\<close>

definition attr :: "(jsval \<Rightarrow> string option) \<Rightarrow> element \<Rightarrow> string \<Rightarrow> jsval \<Rightarrow> (element \<times> dom_op list) option" where
  "attr str e a v =
     (if loose_equals_null v
      then Some (e\<lparr>attributes := (attributes e)(a := None)\<rparr>, [Remove_attribute a])
      else if \<not> strict_equals (getAttribute e a) v
      then (case str v of
              None \<Rightarrow> None
            | Some s \<Rightarrow> Some (e\<lparr>attributes := (attributes e)(a \<mapsto> s)\<rparr>, [Set_attribute a s]))
      else Some (e, []))"

section \<open>The runtime state\<close>

text \<open>
  Components, fragment objects (blocks) and arrays are objects of the JavaScript heap
  and are known by their identity. Function values are known by identity too: a
  function written outside the runtime is \<open>User k\<close>; the two arrow functions that the
  runtime itself allocates (in \<^verbatim>\<open>mount_component\<close> and in \<^verbatim>\<open>transition_out\<close>) carry
  their allocation number, which makes two allocations different functions, and the
  variables they capture.
\<close>

type_synonym comp = nat
type_synonym block = nat
type_synonym aref = nat

datatype fn =
    User nat
  | Mount_callback nat comp aref "aref option"
  | Outro_done nat block bool "fn option"

text \<open>\<^verbatim>\<open>$$.fragment\<close> is \<^verbatim>\<open>null\<close>, \<^verbatim>\<open>false\<close> (a component without DOM) or a block.\<close>

datatype frag = Frag_null | Frag_false | Frag block

text \<open>
  \<^verbatim>\<open>$$.dirty\<close> is an array of 32-bit integers; a JavaScript array can have holes
  (\<open>None\<close>), which read as \<^verbatim>\<open>undefined\<close>.
\<close>

type_synonym dirty_array = "32 word option list"

text \<open>
  What the runtime calls without knowing its body: a function value applied to
  arguments, a method of a block (\<^verbatim>\<open>m\<close>, \<^verbatim>\<open>p\<close>, \<^verbatim>\<open>o\<close>, \<^verbatim>\<open>d\<close>), or a component's
  \<^verbatim>\<open>$$set\<close>.
\<close>

datatype hook =
    H_m jsval jsval
  | H_p "jsval list option" dirty_array
  | H_o jsval
  | H_d jsval

datatype callee =
    Fn fn "jsval list"
  | Hook block hook
  | Dollar_dollar_set comp "(string \<times> jsval) list"

text \<open>
  The trace is what a spy on the runtime's outgoing calls records, in order: the place
  in the runtime that makes the call and what is called. \<open>Enter_drain\<close> and
  \<open>Leave_drain\<close> mark the begin and the end of the body of \<^verbatim>\<open>flush\<close> behind its guard.
\<close>

datatype site =
    At_update comp
  | At_before_update comp
  | At_patch comp
  | At_binding
  | At_render
  | At_flush_callback
  | At_on_destroy comp
  | At_destroy_fragment comp
  | At_mount_fragment comp
  | At_on_mount comp
  | At_cleanup comp
  | At_outro
  | At_outros
  | At_outro_detach
  | At_outro_callback
  | At_bound comp nat
  | At_set comp
  | At_script

datatype event = Enter_drain | Leave_drain | Called site callee

text \<open>
  The \<^verbatim>\<open>$$\<close> object that \<^verbatim>\<open>init\<close> creates, with the fields the modelled functions
  read or write. \<open>on_mount\<close> and \<open>on_destroy\<close> are references into the store of arrays,
  because \<^verbatim>\<open>mount_component\<close> keeps the arrays themselves while \<^verbatim>\<open>destroy_component\<close>
  and the mount callback reassign the fields. \<open>ready\<close> is the variable of that name
  in the closure of \<^verbatim>\<open>init\<close>; \<open>has_set\<close> says whether the component has a \<^verbatim>\<open>$$set\<close>;
  \<open>destroy_noop\<close> says that \<^verbatim>\<open>$destroy\<close> has been replaced by \<^verbatim>\<open>noop\<close>.
\<close>

record component =
  fragment :: frag
  ctx :: "jsval list option"
  update_fn :: fn
  not_equal :: "jsval \<Rightarrow> jsval \<Rightarrow> jsval"
  bound :: "nat \<rightharpoonup> fn"
  on_mount :: aref
  on_destroy :: "aref option"
  before_update :: "fn list"
  after_update :: "fn list"
  dirty :: dirty_array
  skip_bound :: bool
  ready :: bool
  has_set :: bool
  destroy_noop :: bool

text \<open>A transition group \<^verbatim>\<open>{ r: 0, c: [], p: outros }\<close>; the parent is the rest of the stack.\<close>

record group =
  group_r :: nat
  group_c :: "fn list"

text \<open>
  The module-level variables of the runtime, the heap (\<open>comps\<close>, \<open>arrays\<close> and the two
  allocation counters), the number of \<^verbatim>\<open>resolved_promise.then(flush)\<close> registrations
  made so far (\<open>microtasks\<close>), whether a block has an \<^verbatim>\<open>o\<close> method (\<open>outro_hook\<close>),
  and the trace. \<open>outros\<close> is the stack of groups, the current group first; the empty
  stack is the initial \<^verbatim>\<open>undefined\<close>.
\<close>

record rt =
  comps :: "comp \<Rightarrow> component"
  arrays :: "aref \<Rightarrow> fn list"
  next_array :: aref
  next_closure :: nat
  current_component :: "comp option"
  dirty_components :: "comp list"
  binding_callbacks :: "fn list"
  render_callbacks :: "fn list"
  flush_callbacks :: "fn list"
  update_scheduled :: bool
  microtasks :: nat
  flushing :: bool
  seen_callbacks :: "fn set"
  outroing :: "block set"
  outros :: "group list"
  outro_hook :: "block \<Rightarrow> bool"
  trace :: "event list"

text \<open>
  The meaning of a call out of the runtime is a parameter \<open>call\<close> of every runtime
  function: it gives, for a callee and a state, the function the callee returned (if it
  returned a function) and the state it left, or \<open>None\<close> when the callee throws or does
  not return. Every call the runtime makes is recorded in the trace first.
\<close>

type_synonym call = "callee \<Rightarrow> rt \<Rightarrow> (fn option \<times> rt) option"

definition invoke_result :: "call \<Rightarrow> site \<Rightarrow> callee \<Rightarrow> rt \<Rightarrow> (fn option \<times> rt) option" where
  "invoke_result call site f s = call f (s\<lparr>trace := trace s @ [Called site f]\<rparr>)"

definition invoke :: "call \<Rightarrow> site \<Rightarrow> callee \<Rightarrow> rt \<Rightarrow> rt option" where
  "invoke call site f s = map_option snd (invoke_result call site f s)"

text \<open>
  \<^verbatim>\<open>function run_all(fns) { fns.forEach(run); }\<close>: \<^verbatim>\<open>forEach\<close> fixes the range of
  indices before the first call, so elements pushed meanwhile are not visited.
\<close>

fun run_all :: "call \<Rightarrow> site \<Rightarrow> fn list \<Rightarrow> rt \<Rightarrow> rt option" where
  "run_all call site [] s = Some s"
| "run_all call site (f # fs) s = Option.bind (invoke call site (Fn f []) s) (run_all call site fs)"

definition set_comp :: "comp \<Rightarrow> (component \<Rightarrow> component) \<Rightarrow> rt \<Rightarrow> rt" where
  "set_comp c f s = s\<lparr>comps := (comps s)(c := f (comps s c))\<rparr>"

section \<open>The scheduler\<close>

text \<open>
  \<^verbatim>\<open>function schedule_update() {
    if (!update_scheduled) {
        update_scheduled = true;
        resolved_promise.then(flush);
    }
  }
  function add_render_callback(fn) {
    render_callbacks.push(fn);
  }\<close>
\<close>

definition schedule_update :: "rt \<Rightarrow> rt" where
  "schedule_update s =
     (if \<not> update_scheduled s
      then s\<lparr>update_scheduled := True, microtasks := microtasks s + 1\<rparr>
      else s)"

definition add_render_callback :: "fn \<Rightarrow> rt \<Rightarrow> rt" where
  "add_render_callback f s = s\<lparr>render_callbacks := render_callbacks s @ [f]\<rparr>"

text \<open>
  \<^verbatim>\<open>function update($$) {
    if ($$.fragment !== null) {
        $$.update();
        run_all($$.before_update);
        const dirty = $$.dirty;
        $$.dirty = [-1];
        $$.fragment && $$.fragment.p($$.ctx, dirty);
        $$.after_update.forEach(add_render_callback);
    }
  }\<close>
\<close>

definition update :: "call \<Rightarrow> comp \<Rightarrow> rt \<Rightarrow> rt option" where
  "update call c s =
     (if fragment (comps s c) \<noteq> Frag_null then do {
        s \<leftarrow> invoke call (At_update c) (Fn (update_fn (comps s c)) []) s;
        s \<leftarrow> run_all call (At_before_update c) (before_update (comps s c)) s;
        let d = dirty (comps s c);
        let s = set_comp c (\<lambda>k. k\<lparr>dirty := [Some (- 1)]\<rparr>) s;
        s \<leftarrow> (case fragment (comps s c) of
                Frag b \<Rightarrow> invoke call (At_patch c) (Hook b (H_p (ctx (comps s c)) d)) s
              | _ \<Rightarrow> Some s);
        Some (fold add_render_callback (after_update (comps s c)) s)
      } else Some s)"

text \<open>
  The loops of \<^verbatim>\<open>flush\<close>. Each of them reads its queue again at every turn, and the
  calls it makes can push onto the queue, so none of them needs to end: they are
  partial functions, \<open>None\<close> when the loop does not end or a callee throws.

  \<^verbatim>\<open>for (let i = 0; i < dirty_components.length; i += 1) {
      const component = dirty_components[i];
      set_current_component(component);
      update(component.$$);
  }\<close>
\<close>

partial_function (option) update_loop :: "call \<Rightarrow> nat \<Rightarrow> rt \<Rightarrow> rt option" where
  "update_loop call i s =
     (if i < length (dirty_components s) then do {
        let component = dirty_components s ! i;
        s \<leftarrow> update call component (s\<lparr>current_component := Some component\<rparr>);
        update_loop call (i + 1) s
      } else Some s)"

text \<open>\<^verbatim>\<open>while (binding_callbacks.length) binding_callbacks.pop()();\<close>\<close>

partial_function (option) binding_loop :: "call \<Rightarrow> rt \<Rightarrow> rt option" where
  "binding_loop call s =
     (if binding_callbacks s \<noteq> [] then do {
        let f = last (binding_callbacks s);
        s \<leftarrow> invoke call At_binding (Fn f []) (s\<lparr>binding_callbacks := butlast (binding_callbacks s)\<rparr>);
        binding_loop call s
      } else Some s)"

text \<open>
  \<^verbatim>\<open>for (let i = 0; i < render_callbacks.length; i += 1) {
      const callback = render_callbacks[i];
      if (!seen_callbacks.has(callback)) {
          // ...so guard against infinite loops
          seen_callbacks.add(callback);
          callback();
      }
  }\<close>
\<close>

partial_function (option) render_loop :: "call \<Rightarrow> nat \<Rightarrow> rt \<Rightarrow> rt option" where
  "render_loop call i s =
     (if i < length (render_callbacks s) then do {
        let callback = render_callbacks s ! i;
        s \<leftarrow> (if callback \<notin> seen_callbacks s
              then invoke call At_render (Fn callback [])
                     (s\<lparr>seen_callbacks := insert callback (seen_callbacks s)\<rparr>)
              else Some s);
        render_loop call (i + 1) s
      } else Some s)"

text \<open>
  The \<^verbatim>\<open>do { ... } while (dirty_components.length)\<close> of \<^verbatim>\<open>flush\<close>: the update loop,
  \<^verbatim>\<open>set_current_component(null); dirty_components.length = 0;\<close>, the binding loop, the
  render loop, \<^verbatim>\<open>render_callbacks.length = 0;\<close>, and again while a component is dirty.
\<close>

partial_function (option) drain :: "call \<Rightarrow> rt \<Rightarrow> rt option" where
  "drain call s = do {
     s \<leftarrow> update_loop call 0 s;
     let s = s\<lparr>current_component := None, dirty_components := []\<rparr>;
     s \<leftarrow> binding_loop call s;
     s \<leftarrow> render_loop call 0 s;
     let s = s\<lparr>render_callbacks := []\<rparr>;
     if dirty_components s \<noteq> [] then drain call s else Some s
   }"

text \<open>\<^verbatim>\<open>while (flush_callbacks.length) { flush_callbacks.pop()(); }\<close>\<close>

partial_function (option) flush_callbacks_loop :: "call \<Rightarrow> rt \<Rightarrow> rt option" where
  "flush_callbacks_loop call s =
     (if flush_callbacks s \<noteq> [] then do {
        let f = last (flush_callbacks s);
        s \<leftarrow> invoke call At_flush_callback (Fn f []) (s\<lparr>flush_callbacks := butlast (flush_callbacks s)\<rparr>);
        flush_callbacks_loop call s
      } else Some s)"

text \<open>
  \<^verbatim>\<open>function flush() {
    if (flushing)
        return;
    flushing = true;
    do { ... } while (dirty_components.length);
    while (flush_callbacks.length) {
        flush_callbacks.pop()();
    }
    update_scheduled = false;
    flushing = false;
    seen_callbacks.clear();
  }\<close>
\<close>

definition flush :: "call \<Rightarrow> rt \<Rightarrow> rt option" where
  "flush call s =
     (if flushing s then Some s
      else do {
        let s = s\<lparr>flushing := True, trace := trace s @ [Enter_drain]\<rparr>;
        s \<leftarrow> drain call s;
        s \<leftarrow> flush_callbacks_loop call s;
        Some (s\<lparr>update_scheduled := False, flushing := False, seen_callbacks := {},
                trace := trace s @ [Leave_drain]\<rparr>)
      })"

section \<open>Dirty tracking\<close>

text \<open>
  \<^verbatim>\<open>function make_dirty(component, i) {
    if (component.$$.dirty[0] === -1) {
        dirty_components.push(component);
        schedule_update();
        component.$$.dirty.fill(0);
    }
    component.$$.dirty[(i / 31) | 0] |= (1 << (i % 31));
  }\<close>
  A slot index \<open>i\<close> is an index into the array \<^verbatim>\<open>$$.ctx\<close>, a natural number below
  \<open>2 ^ 32\<close>, for which \<^verbatim>\<open>(i / 31) | 0\<close> is \<open>i div 31\<close>. \<open>sentinel\<close> is the test
  \<^verbatim>\<open>dirty[0] === -1\<close>, \<open>fill_zero\<close> is \<^verbatim>\<open>fill(0)\<close> (every index below the length),
  \<open>dirty_word d k\<close> is what \<^verbatim>\<open>d[k]\<close> is as a 32-bit integer (0 for a hole or past the
  end), and \<open>or_assign\<close> is \<^verbatim>\<open>d[k] |= b\<close>, which lengthens the array when \<open>k\<close> is past
  its end.
\<close>

definition sentinel :: "dirty_array \<Rightarrow> bool" where
  "sentinel d = (case d of Some w # _ \<Rightarrow> w = - 1 | _ \<Rightarrow> False)"

definition fill_zero :: "dirty_array \<Rightarrow> dirty_array" where
  "fill_zero d = map (\<lambda>_. Some 0) d"

definition dirty_word :: "dirty_array \<Rightarrow> nat \<Rightarrow> 32 word" where
  "dirty_word d k = (if k < length d then (case d ! k of None \<Rightarrow> 0 | Some w \<Rightarrow> w) else 0)"

definition or_assign :: "dirty_array \<Rightarrow> nat \<Rightarrow> 32 word \<Rightarrow> dirty_array" where
  "or_assign d k b =
     (if k < length d then d[k := Some (dirty_word d k OR b)]
      else d @ replicate (k - length d) None @ [Some (dirty_word d k OR b)])"

definition make_dirty :: "comp \<Rightarrow> nat \<Rightarrow> rt \<Rightarrow> rt" where
  "make_dirty c i s =
     (let s = (if sentinel (dirty (comps s c))
               then set_comp c (\<lambda>k. k\<lparr>dirty := fill_zero (dirty k)\<rparr>)
                      (schedule_update (s\<lparr>dirty_components := dirty_components s @ [c]\<rparr>))
               else s)
      in set_comp c (\<lambda>k. k\<lparr>dirty := or_assign (dirty k) (i div 31) (push_bit (i mod 31) 1)\<rparr>) s)"

text \<open>
  Reading and writing \<^verbatim>\<open>$$.ctx[i]\<close>: a read past the end is \<^verbatim>\<open>undefined\<close>, a write
  past the end lengthens the array.
\<close>

definition js_load :: "jsval list \<Rightarrow> nat \<Rightarrow> jsval" where
  "js_load xs i = (if i < length xs then xs ! i else Undefined)"

definition js_store :: "jsval list \<Rightarrow> nat \<Rightarrow> jsval \<Rightarrow> jsval list" where
  "js_store xs i v =
     (if i < length xs then xs[i := v] else xs @ replicate (i - length xs) Undefined @ [v])"

text \<open>
  The closure that \<^verbatim>\<open>init\<close> hands to the component's \<^verbatim>\<open>instance\<close> function as
  \<^verbatim>\<open>$$invalidate\<close>:
  \<^verbatim>\<open>(i, ret, ...rest) => {
    const value = rest.length ? rest[0] : ret;
    if ($$.ctx && not_equal($$.ctx[i], $$.ctx[i] = value)) {
        if (!$$.skip_bound && $$.bound[i])
            $$.bound[i](value);
        if (ready)
            make_dirty(component, i);
    }
    return ret;
  }\<close>
  The old value is read, then the new one is stored, then \<^verbatim>\<open>not_equal\<close> is called.
\<close>

definition invalidate :: "call \<Rightarrow> comp \<Rightarrow> nat \<Rightarrow> jsval \<Rightarrow> jsval list \<Rightarrow> rt \<Rightarrow> rt option" where
  "invalidate call c i ret rest s =
     (let v = (if rest \<noteq> [] then hd rest else ret) in
      case ctx (comps s c) of
        None \<Rightarrow> Some s
      | Some xs \<Rightarrow>
          let old = js_load xs i;
              s = set_comp c (\<lambda>k. k\<lparr>ctx := Some (js_store xs i v)\<rparr>) s
          in if truthy (not_equal (comps s c) old v) then do {
               s \<leftarrow> (if \<not> skip_bound (comps s c)
                     then (case bound (comps s c) i of
                             Some f \<Rightarrow> invoke call (At_bound c i) (Fn f [v]) s
                           | None \<Rightarrow> Some s)
                     else Some s);
               Some (if ready (comps s c) then make_dirty c i s else s)
             } else Some s)"

text \<open>
  \<^verbatim>\<open>$set($$props) {
    if (this.$$set && !is_empty($$props)) {
        this.$$.skip_bound = true;
        this.$$set($$props);
        this.$$.skip_bound = false;
    }
  }\<close>
\<close>

definition dollar_set :: "call \<Rightarrow> comp \<Rightarrow> (string \<times> jsval) list \<Rightarrow> rt \<Rightarrow> rt option" where
  "dollar_set call c props s =
     (if has_set (comps s c) \<and> props \<noteq> [] then do {
        let s = set_comp c (\<lambda>k. k\<lparr>skip_bound := True\<rparr>) s;
        s \<leftarrow> invoke call (At_set c) (Dollar_dollar_set c props) s;
        Some (set_comp c (\<lambda>k. k\<lparr>skip_bound := False\<rparr>) s)
      } else Some s)"

section \<open>Component lifecycle\<close>

text \<open>
  \<^verbatim>\<open>function destroy_component(component, detaching) {
    const $$ = component.$$;
    if ($$.fragment !== null) {
        run_all($$.on_destroy);
        $$.fragment && $$.fragment.d(detaching);
        $$.on_destroy = $$.fragment = null;
        $$.ctx = [];
    }
  }\<close>
  \<^verbatim>\<open>run_all(null)\<close> throws a TypeError.
\<close>

definition destroy_component :: "call \<Rightarrow> comp \<Rightarrow> jsval \<Rightarrow> rt \<Rightarrow> rt option" where
  "destroy_component call c detaching s =
     (if fragment (comps s c) \<noteq> Frag_null then
        (case on_destroy (comps s c) of
           None \<Rightarrow> None
         | Some a \<Rightarrow> do {
             s \<leftarrow> run_all call (At_on_destroy c) (arrays s a) s;
             s \<leftarrow> (case fragment (comps s c) of
                     Frag b \<Rightarrow> invoke call (At_destroy_fragment c) (Hook b (H_d detaching)) s
                   | _ \<Rightarrow> Some s);
             Some (set_comp c (\<lambda>k. k\<lparr>on_destroy := None, fragment := Frag_null, ctx := Some []\<rparr>) s)
           })
      else Some s)"

text \<open>
  \<^verbatim>\<open>$destroy() {
    destroy_component(this, 1);
    this.$destroy = noop;
  }\<close>
\<close>

definition dollar_destroy :: "call \<Rightarrow> comp \<Rightarrow> rt \<Rightarrow> rt option" where
  "dollar_destroy call c s =
     (if destroy_noop (comps s c) then Some s
      else do {
        s \<leftarrow> destroy_component call c (Number (Fin 1)) s;
        Some (set_comp c (\<lambda>k. k\<lparr>destroy_noop := True\<rparr>) s)
      })"

text \<open>
  \<^verbatim>\<open>function mount_component(component, target, anchor, customElement) {
    const { fragment, on_mount, on_destroy, after_update } = component.$$;
    fragment && fragment.m(target, anchor);
    if (!customElement) {
        // onMount happens before the initial afterUpdate
        add_render_callback(() => { ... });
    }
    after_update.forEach(add_render_callback);
  }\<close>
  The four fields are read once, on entry; the arrow function captures \<open>component\<close>
  and the values of \<open>on_mount\<close> and \<open>on_destroy\<close> read then.
\<close>

definition mount_component :: "call \<Rightarrow> comp \<Rightarrow> jsval \<Rightarrow> jsval \<Rightarrow> bool \<Rightarrow> rt \<Rightarrow> rt option" where
  "mount_component call c target anchor customElement s =
     (let fr = fragment (comps s c); om = on_mount (comps s c);
          od = on_destroy (comps s c); au = after_update (comps s c)
      in do {
        s \<leftarrow> (case fr of
                Frag b \<Rightarrow> invoke call (At_mount_fragment c) (Hook b (H_m target anchor)) s
              | _ \<Rightarrow> Some s);
        let s = (if \<not> customElement
                 then add_render_callback (Mount_callback (next_closure s) c om od)
                        (s\<lparr>next_closure := next_closure s + 1\<rparr>)
                 else s);
        Some (fold add_render_callback au s)
      })"

text \<open>
  \<^verbatim>\<open>on_mount.map(run).filter(is_function)\<close>: every function of the array is called, in
  order, and the results that are functions are kept.
\<close>

fun map_run :: "call \<Rightarrow> site \<Rightarrow> fn list \<Rightarrow> rt \<Rightarrow> (fn list \<times> rt) option" where
  "map_run call site [] s = Some ([], s)"
| "map_run call site (f # fs) s = do {
     (r, s) \<leftarrow> invoke_result call site (Fn f []) s;
     (rs, s) \<leftarrow> map_run call site fs s;
     Some ((case r of Some g \<Rightarrow> [g] | None \<Rightarrow> []) @ rs, s)
   }"

text \<open>
  The body of the arrow function of \<^verbatim>\<open>mount_component\<close>, with \<open>om\<close> and \<open>od\<close> the
  captured \<open>on_mount\<close> and \<open>on_destroy\<close>:
  \<^verbatim>\<open>() => {
    const new_on_destroy = on_mount.map(run).filter(is_function);
    if (on_destroy) {
        on_destroy.push(...new_on_destroy);
    }
    else {
        // Edge case - component was destroyed immediately,
        // most likely as a result of a binding initialising
        run_all(new_on_destroy);
    }
    component.$$.on_mount = [];
  }\<close>
\<close>

definition mount_callback :: "call \<Rightarrow> comp \<Rightarrow> aref \<Rightarrow> aref option \<Rightarrow> rt \<Rightarrow> rt option" where
  "mount_callback call c om od s = do {
     (new_on_destroy, s) \<leftarrow> map_run call (At_on_mount c) (arrays s om) s;
     s \<leftarrow> (case od of
             Some a \<Rightarrow> Some (s\<lparr>arrays := (arrays s)(a := arrays s a @ new_on_destroy)\<rparr>)
           | None \<Rightarrow> run_all call (At_cleanup c) new_on_destroy s);
     Some (set_comp c (\<lambda>k. k\<lparr>on_mount := next_array s\<rparr>)
             (s\<lparr>arrays := (arrays s)(next_array s := []), next_array := next_array s + 1\<rparr>))
   }"

section \<open>Transition groups\<close>

text \<open>
  \<^verbatim>\<open>function group_outros() {
    outros = {
        r: 0,
        c: [],
        p: outros // parent group
    };
  }
  function check_outros() {
    if (!outros.r) {
        run_all(outros.c);
    }
    outros = outros.p;
  }\<close>
  Reading a property of the initial \<^verbatim>\<open>undefined\<close> throws a TypeError.
\<close>

definition group_outros :: "rt \<Rightarrow> rt" where
  "group_outros s = s\<lparr>outros := \<lparr>group_r = 0, group_c = []\<rparr> # outros s\<rparr>"

definition check_outros :: "call \<Rightarrow> rt \<Rightarrow> rt option" where
  "check_outros call s =
     (case outros s of
        [] \<Rightarrow> None
      | g # _ \<Rightarrow> do {
          s \<leftarrow> (if group_r g = 0 then run_all call At_outros (group_c g) s else Some s);
          (case outros s of [] \<Rightarrow> None | _ # p \<Rightarrow> Some (s\<lparr>outros := p\<rparr>))
        })"

text \<open>
  \<^verbatim>\<open>function transition_out(block, local, detach, callback) {
    if (block && block.o) {
        if (outroing.has(block))
            return;
        outroing.add(block);
        outros.c.push(() => {
            outroing.delete(block);
            if (callback) {
                if (detach)
                    block.d(1);
                callback();
            }
        });
        block.o(local);
    }
  }\<close>
  \<open>blk\<close> is \<open>None\<close> for a falsy \<^verbatim>\<open>block\<close>; \<open>detach\<close> and \<open>callback\<close> are tested for
  truthiness only, so they are a boolean and an optional function.
\<close>

definition transition_out :: "call \<Rightarrow> block option \<Rightarrow> jsval \<Rightarrow> bool \<Rightarrow> fn option \<Rightarrow> rt \<Rightarrow> rt option" where
  "transition_out call blk local detach callback s =
     (case blk of
        None \<Rightarrow> Some s
      | Some b \<Rightarrow>
          if outro_hook s b then
            (if b \<in> outroing s then Some s
             else (case outros s of
                     [] \<Rightarrow> None
                   | g # p \<Rightarrow>
                       invoke call At_outro (Hook b (H_o local))
                         (s\<lparr>outroing := insert b (outroing s),
                            outros := g\<lparr>group_c := group_c g @ [Outro_done (next_closure s) b detach callback]\<rparr> # p,
                            next_closure := next_closure s + 1\<rparr>)))
          else Some s)"

text \<open>The body of the arrow function that \<^verbatim>\<open>transition_out\<close> pushes.\<close>

definition outro_done :: "call \<Rightarrow> block \<Rightarrow> bool \<Rightarrow> fn option \<Rightarrow> rt \<Rightarrow> rt option" where
  "outro_done call b detach callback s =
     (let s = s\<lparr>outroing := outroing s - {b}\<rparr> in
      case callback of
        None \<Rightarrow> Some s
      | Some f \<Rightarrow> do {
          s \<leftarrow> (if detach then invoke call At_outro_detach (Hook b (H_d (Number (Fin 1)))) s else Some s);
          invoke call At_outro_callback (Fn f []) s
        })"

section \<open>Code outside the runtime\<close>

text \<open>
  A function written outside the runtime (a component's \<^verbatim>\<open>$$.update\<close>, a lifecycle
  callback, a method of a block) reaches the runtime's state only through the runtime's
  functions. Its run is the list of runtime functions it calls, with their arguments,
  which may depend on the state it finds, and the function it returns, if any.
\<close>

datatype action =
    Do_flush
  | Do_invalidate comp nat jsval "jsval list"
  | Do_add_render_callback fn
  | Do_schedule_update
  | Do_push_binding_callback fn
  | Do_push_flush_callback fn
  | Do_set comp "(string \<times> jsval) list"
  | Do_destroy_component comp jsval
  | Do_destroy comp
  | Do_mount_component comp jsval jsval bool
  | Do_group_outros
  | Do_check_outros
  | Do_transition_out "block option" jsval bool "fn option"
  | Do_call callee

record program =
  body :: "callee \<Rightarrow> rt \<Rightarrow> action list"
  result :: "callee \<Rightarrow> rt \<Rightarrow> fn option"

fun perform :: "call \<Rightarrow> action \<Rightarrow> rt \<Rightarrow> rt option" where
  "perform call Do_flush s = flush call s"
| "perform call (Do_invalidate c i ret rest) s = invalidate call c i ret rest s"
| "perform call (Do_add_render_callback f) s = Some (add_render_callback f s)"
| "perform call Do_schedule_update s = Some (schedule_update s)"
| "perform call (Do_push_binding_callback f) s = Some (s\<lparr>binding_callbacks := binding_callbacks s @ [f]\<rparr>)"
| "perform call (Do_push_flush_callback f) s = Some (s\<lparr>flush_callbacks := flush_callbacks s @ [f]\<rparr>)"
| "perform call (Do_set c props) s = dollar_set call c props s"
| "perform call (Do_destroy_component c detaching) s = destroy_component call c detaching s"
| "perform call (Do_destroy c) s = dollar_destroy call c s"
| "perform call (Do_mount_component c target anchor customElement) s = mount_component call c target anchor customElement s"
| "perform call Do_group_outros s = Some (group_outros s)"
| "perform call Do_check_outros s = check_outros call s"
| "perform call (Do_transition_out blk local detach callback) s = transition_out call blk local detach callback s"
| "perform call (Do_call f) s = invoke call At_script f s"

fun perform_all :: "call \<Rightarrow> action list \<Rightarrow> rt \<Rightarrow> rt option" where
  "perform_all call [] s = Some s"
| "perform_all call (a # as) s = Option.bind (perform call a s) (perform_all call as)"

text \<open>
  \<open>run n prog\<close> is the meaning of a call when the functions outside the runtime are
  those of \<open>prog\<close> and the call stack may grow by \<open>n\<close> frames: the runtime's own arrow
  functions run their bodies, any other callee runs its actions. A call that needs a
  deeper stack does not return.
\<close>

primrec run :: "nat \<Rightarrow> program \<Rightarrow> call" where
  "run 0 prog = (\<lambda>f s. None)"
| "run (Suc n) prog = (\<lambda>f s.
     case f of
       Fn (Mount_callback k c om od) args \<Rightarrow> map_option (Pair None) (mount_callback (run n prog) c om od s)
     | Fn (Outro_done k b detach callback) args \<Rightarrow> map_option (Pair None) (outro_done (run n prog) b detach callback s)
     | _ \<Rightarrow> map_option (Pair (result prog f s)) (perform_all (run n prog) (body prog f s) s))"

section \<open>Initial states\<close>

text \<open>
  \<^verbatim>\<open>function noop() { }\<close> is one function value. \<open>quiet\<close> is the meaning of calls when
  every callee returns \<^verbatim>\<open>undefined\<close> at once and touches nothing. \<open>idle\<close> is the program
  whose functions all have the body of \<^verbatim>\<open>noop\<close>.
\<close>

definition noop :: fn where
  "noop = User 0"

definition quiet :: call where
  "quiet f s = Some (None, s)"

definition idle :: program where
  "idle = \<lparr>body = (\<lambda>_ _. []), result = (\<lambda>_ _. None)\<rparr>"

text \<open>
  The \<^verbatim>\<open>$$\<close> object as \<^verbatim>\<open>init\<close> creates it, with two new empty arrays for \<open>on_mount\<close>
  and \<open>on_destroy\<close>:
  \<^verbatim>\<open>const $$ = component.$$ = {
    fragment: null,
    ctx: null,
    // state
    props,
    update: noop,
    not_equal,
    bound: blank_object(),
    // lifecycle
    on_mount: [],
    on_destroy: [],
    on_disconnect: [],
    before_update: [],
    after_update: [],
    context: ...,
    // everything else
    callbacks: blank_object(),
    dirty,
    skip_bound: false
  };
  let ready = false;\<close>
\<close>

definition new_component :: "comp \<Rightarrow> (jsval \<Rightarrow> jsval \<Rightarrow> jsval) \<Rightarrow> dirty_array \<Rightarrow> rt \<Rightarrow> rt" where
  "new_component c ne d s =
     s\<lparr>comps := (comps s)(c :=
          \<lparr>fragment = Frag_null, ctx = None, update_fn = noop, not_equal = ne, bound = Map.empty,
           on_mount = next_array s, on_destroy = Some (next_array s + 1),
           before_update = [], after_update = [], dirty = d,
           skip_bound = False, ready = False, has_set = False, destroy_noop = False\<rparr>),
       arrays := (arrays s)(next_array s := [], next_array s + 1 := []),
       next_array := next_array s + 2\<rparr>"

text \<open>
  The runtime when the module has been loaded: the queues are empty
  (\<^verbatim>\<open>const dirty_components = [];\<close> and so on), the flags are false, \<^verbatim>\<open>outros\<close> is
  undefined, and no component has been initialised. Every block has an \<^verbatim>\<open>o\<close> method,
  as the compiled fragments of the bundle have.
\<close>

definition start :: rt where
  "start =
     \<lparr>comps = (\<lambda>_. \<lparr>fragment = Frag_null, ctx = None, update_fn = noop, not_equal = safe_not_equal,
                    bound = Map.empty, on_mount = 0, on_destroy = None,
                    before_update = [], after_update = [], dirty = [Some (- 1)],
                    skip_bound = False, ready = False, has_set = False, destroy_noop = False\<rparr>),
      arrays = (\<lambda>_. []), next_array = 0, next_closure = 0,
      current_component = None, dirty_components = [], binding_callbacks = [],
      render_callbacks = [], flush_callbacks = [], update_scheduled = False, microtasks = 0,
      flushing = False, seen_callbacks = {}, outroing = {}, outros = [],
      outro_hook = (\<lambda>_. True), trace = []\<rparr>"

section \<open>Reading the trace\<close>

text \<open>
  \<open>renders\<close>: the functions called by the render loop of \<^verbatim>\<open>flush\<close>, in order.
  \<open>drains\<close>: the marks of entering and leaving the body of \<^verbatim>\<open>flush\<close>.
  \<open>updates c\<close>: how often \<^verbatim>\<open>update\<close> called the \<^verbatim>\<open>$$.update\<close> of component \<open>c\<close>.
  \<open>patches c\<close>: the dirty arrays that \<^verbatim>\<open>update\<close> passed to the \<^verbatim>\<open>p\<close> of the fragment
  of \<open>c\<close>, in order. \<open>destroys c\<close>: the functions that \<^verbatim>\<open>destroy_component\<close> called as
  \<open>on_destroy\<close> callbacks of \<open>c\<close>, in order.
\<close>

definition render_of :: "event \<Rightarrow> fn option" where
  "render_of e = (case e of Called At_render (Fn f _) \<Rightarrow> Some f | _ \<Rightarrow> None)"

definition renders :: "event list \<Rightarrow> fn list" where
  "renders tr = List.map_filter render_of tr"

definition drains :: "event list \<Rightarrow> event list" where
  "drains tr = filter (\<lambda>e. e = Enter_drain \<or> e = Leave_drain) tr"

definition update_of :: "comp \<Rightarrow> event \<Rightarrow> bool" where
  "update_of c e = (case e of Called site f \<Rightarrow> site = At_update c | _ \<Rightarrow> False)"

definition patch_of :: "comp \<Rightarrow> event \<Rightarrow> dirty_array option" where
  "patch_of c e =
     (case e of
        Called site (Hook b (H_p x d)) \<Rightarrow> if site = At_patch c then Some d else None
      | _ \<Rightarrow> None)"

definition updates :: "comp \<Rightarrow> event list \<Rightarrow> nat" where
  "updates c tr = length (filter (update_of c) tr)"

definition patches :: "comp \<Rightarrow> event list \<Rightarrow> dirty_array list" where
  "patches c tr = List.map_filter (patch_of c) tr"

definition destroy_of :: "comp \<Rightarrow> event \<Rightarrow> fn option" where
  "destroy_of c e =
     (case e of Called site (Fn f args) \<Rightarrow> if site = At_on_destroy c then Some f else None
      | _ \<Rightarrow> None)"

definition destroys :: "comp \<Rightarrow> event list \<Rightarrow> fn list" where
  "destroys c tr = List.map_filter (destroy_of c) tr"

text \<open>
  The bitwise union of the bits of a list of slots, word by word: slot \<open>i\<close> is bit
  \<open>i mod 31\<close> of word \<open>i div 31\<close>.
\<close>

definition union_mask :: "nat list \<Rightarrow> nat \<Rightarrow> 32 word" where
  "union_mask slots k =
     fold (\<lambda>i w. if i div 31 = k then w OR push_bit (i mod 31) 1 else w) slots 0"

section \<open>What a callee may be assumed to leave alone\<close>

text \<open>
  \<open>sched\<close> is the part of the state that belongs to a running \<^verbatim>\<open>flush\<close>: the flag, the
  set of seen callbacks, and the render calls and drain marks of the trace. A meaning of
  calls keeps the guard when no call made while \<open>flushing\<close> is set changes that part.
  \<open>flush_inv R S D\<close> is the invariant of the loops of \<^verbatim>\<open>flush\<close> that was entered with
  render calls \<open>R\<close>, seen set \<open>S\<close> and drain marks \<open>D\<close>.
\<close>

definition sched :: "rt \<Rightarrow> bool \<times> fn set \<times> fn list \<times> event list" where
  "sched s = (flushing s, seen_callbacks s, renders (trace s), drains (trace s))"

definition keeps_guard :: "call \<Rightarrow> bool" where
  "keeps_guard call \<longleftrightarrow> (\<forall>f s r s'. flushing s \<longrightarrow> call f s = Some (r, s') \<longrightarrow> sched s' = sched s)"

definition flush_inv :: "fn list \<Rightarrow> fn set \<Rightarrow> event list \<Rightarrow> rt \<Rightarrow> bool" where
  "flush_inv R S D s \<longleftrightarrow>
     flushing s \<and> drains (trace s) = D \<and>
     (\<exists>new. renders (trace s) = R @ new \<and> distinct new \<and> set new \<inter> S = {} \<and>
            seen_callbacks s = S \<union> set new)"

text \<open>
  Callees that do no further dirtying: \<open>settled call\<close> says that every callee returns
  and leaves alone the four queues, the fragment and the dirty array of every
  component, and the update and patch calls of the trace.
\<close>

definition queues :: "rt \<Rightarrow> comp list \<times> fn list \<times> fn list \<times> fn list" where
  "queues s = (dirty_components s, binding_callbacks s, render_callbacks s, flush_callbacks s)"

definition watch :: "comp \<Rightarrow> rt \<Rightarrow> frag \<times> dirty_array \<times> nat \<times> dirty_array list" where
  "watch c s = (fragment (comps s c), dirty (comps s c), updates c (trace s), patches c (trace s))"

definition settled :: "call \<Rightarrow> bool" where
  "settled call \<longleftrightarrow>
     (\<forall>f s. \<exists>r s'. call f s = Some (r, s') \<and> queues s' = queues s \<and> (\<forall>c. watch c s' = watch c s))"

text \<open>Bit 31 of the first word of a dirty array is clear: the array is not the sentinel.\<close>

definition clear31 :: "dirty_array \<Rightarrow> bool" where
  "clear31 d \<longleftrightarrow> \<not> bit (dirty_word d 0) 31"

text \<open>
  Callees that leave the teardown of component \<open>c\<close> alone: every callee returns and
  keeps the fragment, the \<open>on_destroy\<close> reference and the \<^verbatim>\<open>$destroy\<close> method of \<open>c\<close>
  and the \<open>on_destroy\<close> calls of the trace.
\<close>

definition lifecycle :: "comp \<Rightarrow> rt \<Rightarrow> frag \<times> aref option \<times> bool \<times> fn list" where
  "lifecycle c s =
     (fragment (comps s c), on_destroy (comps s c), destroy_noop (comps s c), destroys c (trace s))"

definition keeps_lifecycle :: "comp \<Rightarrow> call \<Rightarrow> bool" where
  "keeps_lifecycle c call \<longleftrightarrow>
     (\<forall>f s. \<exists>r s'. call f s = Some (r, s') \<and> lifecycle c s' = lifecycle c s)"

section \<open>Example programs and states\<close>

text \<open>
  A component with one slot and an after-update callback \<open>User 5\<close> that calls
  \<^verbatim>\<open>flush()\<close> and then sets the slot to 2; the slot holds 1 and has been marked dirty.
\<close>

definition again :: program where
  "again = \<lparr>body = (\<lambda>f s. if f = Fn (User 5) [] then [Do_flush, Do_invalidate 0 0 (Number (Fin 2)) []] else []),
             result = (\<lambda>_ _. None)\<rparr>"

definition ex_after_update :: rt where
  "ex_after_update =
     make_dirty 0 0
       (set_comp 0 (\<lambda>k. k\<lparr>fragment := Frag 0, ctx := Some [Number (Fin 1)],
          after_update := [User 5], ready := True\<rparr>)
         (new_component 0 safe_not_equal [Some (- 1)] start))"

text \<open>A ready component with 41 slots and a fragment, not dirty.\<close>

definition ex_clean :: rt where
  "ex_clean =
     set_comp 0 (\<lambda>k. k\<lparr>fragment := Frag 0, ctx := Some (replicate 41 Undefined), ready := True\<rparr>)
       (new_component 0 safe_not_equal [Some (- 1)] start)"

text \<open>
  A ready component whose slot 0 holds 1 and is bound to the callback \<open>User 1\<close>, and a
  \<^verbatim>\<open>$$set\<close> that sets slot 0 to the value 2.
\<close>

definition ex_bound :: rt where
  "ex_bound =
     set_comp 0 (\<lambda>k. k\<lparr>fragment := Frag 0, ctx := Some [Number (Fin 1)],
        bound := [0 \<mapsto> User 1], ready := True, has_set := True\<rparr>)
       (new_component 0 safe_not_equal [Some (- 1)] start)"

definition setter :: program where
  "setter = \<lparr>body = (\<lambda>f s. case f of Dollar_dollar_set c props \<Rightarrow> [Do_invalidate c 0 (Number (Fin 2)) []]
                              | _ \<Rightarrow> []),
              result = (\<lambda>_ _. None)\<rparr>"

text \<open>
  A component with a fragment whose only \<open>on_mount\<close> function \<open>User 1\<close> returns the
  cleanup function \<open>User 2\<close>.
\<close>

definition ex_on_mount :: rt where
  "ex_on_mount =
     (set_comp 0 (\<lambda>k. k\<lparr>fragment := Frag 0, ctx := Some [], ready := True\<rparr>)
        (new_component 0 safe_not_equal [Some (- 1)] start))\<lparr>arrays := (\<lambda>_. [])(0 := [User 1])\<rparr>"

definition with_cleanup :: program where
  "with_cleanup = \<lparr>body = (\<lambda>_ _. []),
                    result = (\<lambda>f s. if f = Fn (User 1) [] then Some (User 2) else None)\<rparr>"

section \<open>Requests to a transition group\<close>

text \<open>
  To speak of any number of \<open>transition_out\<close> calls at once: a request is the block, the
  \<open>local\<close> argument, the \<open>detach\<close> flag and the callback of one call, the callback being
  absent or a function \<open>User k\<close> from outside the runtime. \<open>outro_action\<close> is the call,
  \<open>outro_closure i\<close> the completion closure the call registers when it is the \<open>i\<close>-th
  closure created, \<open>outro_started\<close> what the spy records of the call (the block's
  \<^verbatim>\<open>o\<close>), and \<open>outro_completed i\<close> what it records when the closure is run where every
  function outside the runtime returns at once: the closure itself, then the block's
  \<^verbatim>\<open>d(1)\<close> if there is a callback and \<open>detach\<close> is set, then the callback if there is one.
\<close>

type_synonym outro_request = "block \<times> jsval \<times> bool \<times> nat option"

definition outro_action :: "outro_request \<Rightarrow> action" where
  "outro_action = (\<lambda>(b, l, d, k). Do_transition_out (Some b) l d (map_option User k))"

definition outro_closure :: "nat \<Rightarrow> outro_request \<Rightarrow> fn" where
  "outro_closure i = (\<lambda>(b, l, d, k). Outro_done i b d (map_option User k))"

definition outro_started :: "outro_request \<Rightarrow> event" where
  "outro_started = (\<lambda>(b, l, d, k). Called At_outro (Hook b (H_o l)))"

definition outro_completed :: "nat \<Rightarrow> outro_request \<Rightarrow> event list" where
  "outro_completed i = (\<lambda>(b, l, d, k).
     Called At_outros (Fn (Outro_done i b d (map_option User k)) []) #
     (case k of
        None \<Rightarrow> []
      | Some f \<Rightarrow>
          (if d then [Called At_outro_detach (Hook b (H_d (Number (Fin 1))))] else []) @
          [Called At_outro_callback (Fn (User f) [])]))"

section \<open>The hydration reconciler\<close>

text \<open>
  When a component is mounted onto markup that is already there, every DOM node the
  fragment claims is stamped with \<^verbatim>\<open>claim_order\<close>, the position at which it was claimed.
  \<^verbatim>\<open>init_hydrate\<close> then brings the children of a container into the order of their
  stamps. A node is an object, compared by identity: \<open>nid\<close> is that identity. Of a
  container only the flag \<^verbatim>\<open>hydrate_init\<close> and the child list matter here.
\<close>

record node =
  nid :: nat
  claim_order :: int

record target =
  hydrate_init :: bool
  childNodes :: "node list"

text \<open>
  \<^verbatim>\<open>function upper_bound(low, high, key, value) {
    // Return first index of value larger than input value in the range [low, high)
    while (low < high) {
        const mid = low + ((high - low) >> 1);
        if (key(mid) <= value) {
            low = mid + 1;
        }
        else {
            high = mid;
        }
    }
    return low;
  }\<close>
  The loop is a recursion on the pair \<open>(low, high)\<close>; \<open>high - low\<close> is not negative where
  it is shifted.
\<close>

function upper_bound :: "nat \<Rightarrow> nat \<Rightarrow> (nat \<Rightarrow> int) \<Rightarrow> int \<Rightarrow> nat" where
  "upper_bound low high key v =
     (if low < high then
        (let mid = low + (high - low) div 2 in
         if key mid \<le> v then upper_bound (mid + 1) high key v
         else upper_bound low mid key v)
      else low)"
  by pat_completeness auto
termination
  by (relation "measure (\<lambda>(low, high, key, v). high - low)") auto

declare upper_bound.simps [simp del]

text \<open>
  \<^verbatim>\<open>function init_hydrate(target) {
    if (target.hydrate_init)
        return;
    target.hydrate_init = true;
    const children = target.childNodes;
    const m = new Int32Array(children.length + 1);
    const p = new Int32Array(children.length);
    m[0] = -1;
    let longest = 0;
    for (let i = 0; i < children.length; i++) {
        const current = children[i].claim_order;
        const seqLen = upper_bound(1, longest + 1, idx => children[m[idx]].claim_order, current) - 1;
        p[i] = m[seqLen] + 1;
        const newLen = seqLen + 1;
        m[newLen] = i;
        longest = Math.max(newLen, longest);
    }
    const lis = [];
    const toMove = [];
    let last = children.length - 1;
    for (let cur = m[longest] + 1; cur != 0; cur = p[cur - 1]) {
        lis.push(children[cur - 1]);
        for (; last >= cur; last--) {
            toMove.push(children[last]);
        }
        last--;
    }
    for (; last >= 0; last--) {
        toMove.push(children[last]);
    }
    lis.reverse();
    toMove.sort((a, b) => a.claim_order - b.claim_order);
    for (let i = 0, j = 0; i < toMove.length; i++) {
        while (j < lis.length && toMove[i].claim_order >= lis[j].claim_order) {
            j++;
        }
        const anchor = j < lis.length ? lis[j] : null;
        target.insertBefore(toMove[i], anchor);
    }
  }\<close>
  The function is modelled loop by loop. The two typed arrays hold indices into
  \<open>children\<close> (and \<open>-1\<close>), far below the 32-bit range, so they are lists of integers,
  zero-filled as \<^verbatim>\<open>new Int32Array\<close> leaves them.

  \<open>lis_step\<close> is the body of the first loop, on the state \<open>(m, p, longest)\<close>;
  \<open>lis_tables\<close> runs it for \<open>i = 0, \<dots>, children.length - 1\<close>.
\<close>

definition lis_step :: "node list \<Rightarrow> nat \<Rightarrow> int list \<times> int list \<times> nat \<Rightarrow> int list \<times> int list \<times> nat" where
  "lis_step children i = (\<lambda>(m, p, longest).
     let current = claim_order (children ! i);
         seqLen = upper_bound 1 (longest + 1) (\<lambda>idx. claim_order (children ! nat (m ! idx))) current - 1;
         p = p[i := m ! seqLen + 1];
         newLen = seqLen + 1;
         m = m[newLen := int i]
     in (m, p, max newLen longest))"

definition lis_tables :: "node list \<Rightarrow> int list \<times> int list \<times> nat" where
  "lis_tables children =
     fold (lis_step children) [0..<length children]
       ((replicate (length children + 1) 0)[0 := - 1], replicate (length children) 0, 0)"

text \<open>
  \<open>push_range\<close> is the loop \<^verbatim>\<open>for (; last >= cur; last--) toMove.push(children[last])\<close>,
  which occurs twice, the second time with \<open>0\<close> for \<open>cur\<close>. It returns the list and
  the final \<open>last\<close>.
\<close>

function push_range :: "node list \<Rightarrow> int \<Rightarrow> int \<Rightarrow> node list \<Rightarrow> node list \<times> int" where
  "push_range children last' cur toMove =
     (if last' \<ge> cur then push_range children (last' - 1) cur (toMove @ [children ! nat last'])
      else (toMove, last'))"
  by pat_completeness auto
termination
  by (relation "measure (\<lambda>(children, last', cur, toMove). nat (last' - cur + 1))") auto

declare push_range.simps [simp del]

text \<open>
  \<open>walk\<close> is the second loop, which follows the predecessor links \<open>p\<close> from the end
  of the longest sequence. Nothing in the loop itself bounds the number of its
  iterations, so the result is optional: \<open>None\<close> is a walk that never reaches \<open>0\<close>.
\<close>

partial_function (option) walk ::
  "node list \<Rightarrow> int list \<Rightarrow> int \<Rightarrow> int \<Rightarrow> node list \<Rightarrow> node list \<Rightarrow> (node list \<times> node list \<times> int) option" where
  "walk children p cur last' lis toMove =
     (if cur \<noteq> 0 then
        (let lis = lis @ [children ! nat (cur - 1)];
             (toMove, last') = push_range children last' cur toMove;
             last' = last' - 1
         in walk children p (p ! nat (cur - 1)) last' lis toMove)
      else Some (lis, toMove, last'))"

text \<open>
  The DOM operation \<^verbatim>\<open>target.insertBefore(node, anchor)\<close> on the child list of the
  target: the node, a child already, is taken out of the list and put back before the
  anchor, or at the end when the anchor is \<^verbatim>\<open>null\<close>. An anchor that is not a child of
  the target is an error (the DOM throws \<^verbatim>\<open>NotFoundError\<close>), and a node inserted
  before itself stays where it is.
\<close>

definition insertBefore :: "node list \<Rightarrow> node \<Rightarrow> node option \<Rightarrow> node list option" where
  "insertBefore nodes n anchor =
     (case anchor of
        None \<Rightarrow> Some (remove1 n nodes @ [n])
      | Some a \<Rightarrow>
          if a \<notin> set nodes then None
          else if a = n then Some nodes
          else (let rest = remove1 n nodes
                in Some (takeWhile (\<lambda>x. x \<noteq> a) rest @ n # dropWhile (\<lambda>x. x \<noteq> a) rest)))"

text \<open>
  \<open>advance\<close> is the inner \<^verbatim>\<open>while\<close> of the last loop, and \<open>move_all\<close> the last loop
  itself, over what is left of \<open>toMove\<close>; \<open>j\<close> lives across its iterations. Besides the
  child list, \<open>move_all\<close> returns the calls of \<^verbatim>\<open>insertBefore\<close> it made, in order.
\<close>

function advance :: "node list \<Rightarrow> node \<Rightarrow> nat \<Rightarrow> nat" where
  "advance lis t j =
     (if j < length lis \<and> claim_order t \<ge> claim_order (lis ! j) then advance lis t (j + 1) else j)"
  by pat_completeness auto
termination
  by (relation "measure (\<lambda>(lis, t, j). length lis - j)") auto

declare advance.simps [simp del]

fun move_all ::
  "node list \<Rightarrow> node list \<Rightarrow> nat \<Rightarrow> node list \<Rightarrow> (node \<times> node option) list \<Rightarrow>
   (node list \<times> (node \<times> node option) list) option" where
  "move_all lis [] j nodes ops = Some (nodes, ops)"
| "move_all lis (t # ts) j nodes ops =
     (let j = advance lis t j;
          anchor = (if j < length lis then Some (lis ! j) else None)
      in case insertBefore nodes t anchor of
           None \<Rightarrow> None
         | Some nodes' \<Rightarrow> move_all lis ts j nodes' (ops @ [(t, anchor)]))"

text \<open>
  The whole function. It returns the target and the calls of \<^verbatim>\<open>insertBefore\<close> made;
  \<open>None\<close> is a run that throws or does not end. \<^verbatim>\<open>toMove.sort\<close> with the comparator
  \<^verbatim>\<open>a.claim_order - b.claim_order\<close> is a stable sort by \<open>claim_order\<close>.
\<close>

definition init_hydrate :: "target \<Rightarrow> (target \<times> (node \<times> node option) list) option" where
  "init_hydrate target =
     (if hydrate_init target then Some (target, [])
      else
        let target = target\<lparr>hydrate_init := True\<rparr>;
            children = childNodes target;
            (m, p, longest) = lis_tables children
        in case walk children p (m ! longest + 1) (int (length children) - 1) [] [] of
             None \<Rightarrow> None
           | Some (lis, toMove, last') \<Rightarrow>
               let (toMove, last') = push_range children last' 0 toMove;
                   lis = rev lis;
                   toMove = sort_key claim_order toMove
               in (case move_all lis toMove 0 children [] of
                     None \<Rightarrow> None
                   | Some (nodes, ops) \<Rightarrow> Some (target\<lparr>childNodes := nodes\<rparr>, ops)))"

subsection \<open>What the tables of the first loop mean\<close>

text \<open>
  \<open>inc xs i js\<close>: \<open>js\<close> is a list of positions below \<open>i\<close>, ascending, at which the
  stamps of \<open>xs\<close> ascend strictly: an increasing subsequence of the first \<open>i\<close> children,
  given by its positions.
\<close>

definition inc :: "node list \<Rightarrow> nat \<Rightarrow> nat list \<Rightarrow> bool" where
  "inc xs i js \<longleftrightarrow>
     sorted_wrt (<) js \<and> (\<forall>j\<in>set js. j < i) \<and>
     sorted_wrt (<) (map (\<lambda>j. claim_order (xs ! j)) js)"

text \<open>
  \<open>chain xs p k js\<close>: following the predecessor links \<open>p\<close> from position \<open>k\<close> visits
  the positions \<open>js\<close>, last to first, and then stops.
\<close>

inductive chain :: "node list \<Rightarrow> int list \<Rightarrow> nat \<Rightarrow> nat list \<Rightarrow> bool" for xs p where
  chain_first: "p ! k = 0 \<Longrightarrow> chain xs p k [k]"
| chain_next: "p ! k = int k' + 1 \<Longrightarrow> k' < k \<Longrightarrow> claim_order (xs ! k') < claim_order (xs ! k) \<Longrightarrow>
     chain xs p k' js \<Longrightarrow> chain xs p k (js @ [k])"

text \<open>
  The invariant of the first loop, before iteration \<open>i\<close>: for every length \<open>j\<close> from
  \<open>1\<close> to \<open>longest\<close>, \<open>m ! j\<close> is a position below \<open>i\<close> that ends a chain of \<open>j\<close>
  positions; the stamps at \<open>m ! 1, \<dots>, m ! longest\<close> ascend; and every increasing
  subsequence of the first \<open>i\<close> children is at most \<open>longest\<close> long and ends at a stamp
  no smaller than the one at \<open>m\<close> of its length.
\<close>

definition tables_inv :: "node list \<Rightarrow> nat \<Rightarrow> int list \<times> int list \<times> nat \<Rightarrow> bool" where
  "tables_inv xs i = (\<lambda>(m, p, L).
     length m = length xs + 1 \<and> length p = length xs \<and> L \<le> i \<and> m ! 0 = - 1 \<and>
     (\<forall>j. 1 \<le> j \<and> j \<le> L \<longrightarrow> (\<exists>k js. m ! j = int k \<and> k < i \<and> chain xs p k js \<and> length js = j)) \<and>
     (\<forall>j j'. 1 \<le> j \<and> j < j' \<and> j' \<le> L \<longrightarrow>
         claim_order (xs ! nat (m ! j)) < claim_order (xs ! nat (m ! j'))) \<and>
     (\<forall>js. js \<noteq> [] \<and> inc xs i js \<longrightarrow>
         length js \<le> L \<and> claim_order (xs ! nat (m ! length js)) \<le> claim_order (xs ! last js)))"

definition init_tables :: "node list \<Rightarrow> int list \<times> int list \<times> nat" where
  "init_tables xs = ((replicate (length xs + 1) 0)[0 := - 1], replicate (length xs) 0, 0)"

text \<open>The positions from \<open>lo\<close> up to \<open>hi\<close> that are not among \<open>js\<close>.\<close>

definition others :: "nat \<Rightarrow> nat \<Rightarrow> nat list \<Rightarrow> nat list" where
  "others lo hi js = filter (\<lambda>j. j \<notin> set js) [lo..<hi]"

subsection \<open>Example containers\<close>

text \<open>
  \<open>stamped cs\<close> is a container not yet reconciled whose children carry the stamps
  \<open>cs\<close>, in this order; the identity of a child is its position.
\<close>

abbreviation stamp :: "nat \<Rightarrow> int \<Rightarrow> node" where
  "stamp i c \<equiv> \<lparr>nid = i, claim_order = c\<rparr>"

definition stamped :: "int list \<Rightarrow> target" where
  "stamped cs = \<lparr>hydrate_init = False, childNodes = map (\<lambda>(i, c). stamp i c) (enumerate 0 cs)\<rparr>"

definition ex_children :: "node list" where
  "ex_children = [stamp 0 2, stamp 1 0, stamp 2 1, stamp 3 4, stamp 4 3]"

text \<open>\<^bold>\<open>Properties.\<close> From here on: what the definitions above satisfy.\<close>

section \<open>The change test is reference inequality, NaN-aware, conservative on objects\<close>

lemma safe_not_equal_Boolean:
  "safe_not_equal a b =
     Boolean (if a = Number NaN then b \<noteq> Number NaN
              else a \<noteq> b \<or> typeof a = ''object'' \<and> a \<noteq> Null \<or> typeof a = ''function'')"
  by (cases a) (auto simp: safe_not_equal_def loose_equals_self_def strict_equals_def
      js_or_def js_and_def)

text \<open>
  C6. For all values \<open>old\<close> and \<open>new\<close>, \<open>safe_not_equal old new\<close> is a boolean, and it
  reports a change exactly when \<open>old !== new\<close>, except that NaN against NaN is no change
  and that an old value that is a non-null object or a function is always a change,
  also when \<open>old === new\<close>.
\<close>

theorem safe_not_equal_spec:
  "safe_not_equal old new =
     Boolean (if old = Number NaN \<and> new = Number NaN then False
              else if (typeof old = ''object'' \<and> old \<noteq> Null) \<or> typeof old = ''function'' then True
              else \<not> strict_equals old new)"
  unfolding safe_not_equal_Boolean by (cases old) (auto simp: strict_equals_def)

section \<open>Patching with unchanged content leaves the DOM untouched\<close>

text \<open>
  C8. \<open>set_data\<close> writes the text node's data only when the computed string differs
  from the node's \<open>wholeText\<close>, and makes no DOM mutation at all when they are equal;
  \<open>attr\<close> removes the attribute when the value is null or undefined, and otherwise
  makes no call when the current attribute value already equals the value, and one
  \<open>setAttribute\<close> call when it does not.
\<close>

theorem patch_helpers_skip_equal:
  "(str d = Some d' \<longrightarrow>
      set_data str t d =
        Some (if wholeText t = d' then (t, []) else (t\<lparr>data := d'\<rparr>, [Write_data d']))) \<and>
   (u = Null \<or> u = Undefined \<longrightarrow>
      attr str e a u = Some (e\<lparr>attributes := (attributes e)(a := None)\<rparr>, [Remove_attribute a])) \<and>
   (v \<noteq> Null \<and> v \<noteq> Undefined \<and> strict_equals (getAttribute e a) v \<longrightarrow>
      attr str e a v = Some (e, [])) \<and>
   (w \<noteq> Null \<and> w \<noteq> Undefined \<and> \<not> strict_equals (getAttribute e a) w \<and> str w = Some s \<longrightarrow>
      attr str e a w = Some (e\<lparr>attributes := (attributes e)(a \<mapsto> s)\<rparr>, [Set_attribute a s]))"
  by (auto simp: set_data_def attr_def strict_equals_def loose_equals_null_def)

theorem patch_helpers_skip_equal_witness:
  "set_data (\<lambda>v. case v of String s \<Rightarrow> Some s | _ \<Rightarrow> None)
     \<lparr>text_before = [], data = ''TSM'', text_after = []\<rparr> (String ''TSM'')
     = Some (\<lparr>text_before = [], data = ''TSM'', text_after = []\<rparr>, []) \<and>
   attr (\<lambda>v. case v of String s \<Rightarrow> Some s | _ \<Rightarrow> None)
     \<lparr>attributes = [''class'' \<mapsto> ''title'']\<rparr> ''class'' Undefined
     = Some (\<lparr>attributes = [''class'' \<mapsto> ''title''](''class'' := None)\<rparr>, [Remove_attribute ''class'']) \<and>
   attr (\<lambda>v. case v of String s \<Rightarrow> Some s | _ \<Rightarrow> None)
     \<lparr>attributes = [''class'' \<mapsto> ''title'']\<rparr> ''class'' (String ''title'')
     = Some (\<lparr>attributes = [''class'' \<mapsto> ''title'']\<rparr>, []) \<and>
   attr (\<lambda>v. case v of String s \<Rightarrow> Some s | _ \<Rightarrow> None)
     \<lparr>attributes = [''class'' \<mapsto> ''title'']\<rparr> ''class'' (String ''quiz'')
     = Some (\<lparr>attributes = [''class'' \<mapsto> ''title''](''class'' \<mapsto> ''quiz'')\<rparr>, [Set_attribute ''class'' ''quiz''])"
  using patch_helpers_skip_equal
    [of "\<lambda>v. case v of String s \<Rightarrow> Some s | _ \<Rightarrow> None" "String ''TSM''" "''TSM''"
        "\<lparr>text_before = [], data = ''TSM'', text_after = []\<rparr>" Undefined
        "\<lparr>attributes = [''class'' \<mapsto> ''title'']\<rparr>" "''class''" "String ''title''"
        "String ''quiz''" "''quiz''"]
  by (simp add: wholeText_def getAttribute_def strict_equals_def)

section \<open>Calls made while flushing keep the guard\<close>

lemma renders_append [simp]: "renders (xs @ ys) = renders xs @ renders ys"
  by (induction xs) (simp_all add: renders_def map_filter_simps split: option.splits)

lemma drains_append [simp]: "drains (xs @ ys) = drains xs @ drains ys"
  by (simp add: drains_def)

lemma renders_Called [simp]:
  "site \<noteq> At_render \<Longrightarrow> renders [Called site f] = []"
  by (cases site) (simp_all add: renders_def render_of_def map_filter_simps)

lemma renders_render [simp]: "renders [Called At_render (Fn f args)] = [f]"
  by (simp add: renders_def render_of_def map_filter_simps)

lemma drains_Called [simp]: "drains [Called site f] = []"
  by (simp add: drains_def)

lemma sched_simps [simp]:
  "site \<noteq> At_render \<Longrightarrow> sched (s\<lparr>trace := trace s @ [Called site f]\<rparr>) = sched s"
  "sched (set_comp c g s) = sched s"
  "sched (add_render_callback h s) = sched s"
  "sched (schedule_update s) = sched s"
  "sched (group_outros s) = sched s"
  "sched (make_dirty c i s) = sched s"
  "sched (s\<lparr>binding_callbacks := bs\<rparr>) = sched s"
  "sched (s\<lparr>flush_callbacks := fs\<rparr>) = sched s"
  "sched (s\<lparr>render_callbacks := rs\<rparr>) = sched s"
  "sched (s\<lparr>dirty_components := ds\<rparr>) = sched s"
  "sched (s\<lparr>current_component := cc\<rparr>) = sched s"
  "sched (s\<lparr>next_closure := nc\<rparr>) = sched s"
  "sched (s\<lparr>next_array := na\<rparr>) = sched s"
  "sched (s\<lparr>arrays := ar\<rparr>) = sched s"
  "sched (s\<lparr>outros := os\<rparr>) = sched s"
  "sched (s\<lparr>outroing := og\<rparr>) = sched s"
  by (simp_all add: sched_def set_comp_def add_render_callback_def schedule_update_def
      group_outros_def make_dirty_def Let_def)

lemma sched_fold_add [simp]: "sched (fold add_render_callback fs s) = sched s"
  by (induction fs arbitrary: s) simp_all

lemma flushing_sched: "sched s' = sched s \<Longrightarrow> flushing s' = flushing s"
  by (simp add: sched_def)

lemma invoke_result_sched:
  assumes "keeps_guard call" "flushing s" "site \<noteq> At_render" "invoke_result call site f s = Some (r, s')"
  shows "sched s' = sched s"
proof -
  have "flushing (s\<lparr>trace := trace s @ [Called site f]\<rparr>)" using assms(2) by simp
  with assms(1,4) have "sched s' = sched (s\<lparr>trace := trace s @ [Called site f]\<rparr>)"
    unfolding keeps_guard_def invoke_result_def by blast
  with assms(3) show ?thesis by simp
qed

lemma invoke_sched:
  assumes "keeps_guard call" "flushing s" "site \<noteq> At_render" "invoke call site f s = Some s'"
  shows "sched s' = sched s"
  using assms invoke_result_sched unfolding invoke_def by fastforce

lemma run_all_sched:
  assumes "keeps_guard call" "site \<noteq> At_render"
  shows "flushing s \<Longrightarrow> run_all call site fs s = Some s' \<Longrightarrow> sched s' = sched s"
proof (induction fs arbitrary: s)
  case Nil
  then show ?case by simp
next
  case (Cons f fs)
  from Cons.prems(2) obtain s1 where s1: "invoke call site (Fn f []) s = Some s1"
    and rest: "run_all call site fs s1 = Some s'"
    by (auto simp: bind_eq_Some_conv)
  from invoke_sched [OF assms(1) Cons.prems(1) assms(2) s1] have e: "sched s1 = sched s" .
  then have "flushing s1" using Cons.prems(1) by (simp add: sched_def)
  from Cons.IH [OF this rest] e show ?case by simp
qed

lemma bound_call_sched:
  assumes "keeps_guard call" "flushing s1"
    and "(if \<not> sb then (case bo of Some f \<Rightarrow> invoke call (At_bound c i) (Fn f [v]) s1 | None \<Rightarrow> Some s1)
          else Some s1) = Some s2"
  shows "sched s2 = sched s1"
  using assms(3) invoke_sched [OF assms(1,2), of "At_bound c i"]
  by (cases sb; cases bo) auto

lemma invalidate_sched:
  assumes "keeps_guard call" "flushing s" "invalidate call c i ret rest s = Some s'"
  shows "sched s' = sched s"
proof (cases "ctx (comps s c)")
  case None
  with assms(3) show ?thesis by (simp add: invalidate_def Let_def)
next
  case (Some xs)
  let ?v = "if rest \<noteq> [] then hd rest else ret"
  let ?s1 = "set_comp c (\<lambda>k. k\<lparr>ctx := Some (js_store xs i ?v)\<rparr>) s"
  have f1: "flushing ?s1" and e1: "sched ?s1 = sched s"
    using assms(2) by (simp_all add: sched_def set_comp_def)
  show ?thesis
  proof (cases "truthy (not_equal (comps ?s1 c) (js_load xs i) ?v)")
    case False
    with assms(3) Some have "s' = ?s1"
      unfolding invalidate_def Let_def by simp
    with e1 show ?thesis by simp
  next
    case True
    with assms(3) Some have
      "Option.bind (if \<not> skip_bound (comps ?s1 c)
            then (case bound (comps ?s1 c) i of
                    Some f \<Rightarrow> invoke call (At_bound c i) (Fn f [?v]) ?s1
                  | None \<Rightarrow> Some ?s1)
            else Some ?s1) (\<lambda>s. Some (if ready (comps s c) then make_dirty c i s else s)) = Some s'"
      unfolding invalidate_def Let_def by simp
    then obtain s2 where
      s2: "(if \<not> skip_bound (comps ?s1 c)
            then (case bound (comps ?s1 c) i of
                    Some f \<Rightarrow> invoke call (At_bound c i) (Fn f [?v]) ?s1
                  | None \<Rightarrow> Some ?s1)
            else Some ?s1) = Some s2"
      and s': "s' = (if ready (comps s2 c) then make_dirty c i s2 else s2)"
      unfolding bind_eq_Some_conv by auto
    have "sched s2 = sched ?s1"
      by (rule bound_call_sched [OF assms(1) f1 s2])
    with s' e1 show ?thesis by simp
  qed
qed

lemma map_run_sched:
  assumes "keeps_guard call" "site \<noteq> At_render"
  shows "flushing s \<Longrightarrow> map_run call site fs s = Some (rs, s') \<Longrightarrow> sched s' = sched s"
proof (induction fs arbitrary: s rs)
  case Nil
  then show ?case by simp
next
  case (Cons f fs)
  from Cons.prems(2) obtain r s1 rs1 where s1: "invoke_result call site (Fn f []) s = Some (r, s1)"
    and rest: "map_run call site fs s1 = Some (rs1, s')"
    by (auto simp: bind_eq_Some_conv split: prod.splits)
  from invoke_result_sched [OF assms(1) Cons.prems(1) assms(2) s1] have e: "sched s1 = sched s" .
  then have "flushing s1" using Cons.prems(1) by (simp add: sched_def)
  from Cons.IH [OF this rest] e show ?case by simp
qed

lemma frag_call_sched:
  assumes "keeps_guard call" "flushing s" "site \<noteq> At_render"
    and "(case fr of Frag b \<Rightarrow> invoke call site (Hook b (h b)) s | _ \<Rightarrow> Some s) = Some s'"
  shows "sched s' = sched s"
  using assms(4) invoke_sched [OF assms(1,2,3)]
  by (cases fr) auto

lemma dollar_set_sched:
  assumes "keeps_guard call" "flushing s" "dollar_set call c props s = Some s'"
  shows "sched s' = sched s"
proof (cases "has_set (comps s c) \<and> props \<noteq> []")
  case False
  with assms(3) show ?thesis by (auto simp: dollar_set_def)
next
  case True
  let ?s1 = "set_comp c (\<lambda>k. k\<lparr>skip_bound := True\<rparr>) s"
  from True assms(3) obtain s2 where
    s2: "invoke call (At_set c) (Dollar_dollar_set c props) ?s1 = Some s2"
    and s': "s' = set_comp c (\<lambda>k. k\<lparr>skip_bound := False\<rparr>) s2"
    by (auto simp: dollar_set_def Let_def bind_eq_Some_conv)
  have "flushing ?s1" using assms(2) by (simp add: set_comp_def)
  from invoke_sched [OF assms(1) this _ s2] have "sched s2 = sched s" by simp
  with s' show ?thesis by simp
qed

lemma destroy_component_sched:
  assumes "keeps_guard call" "flushing s" "destroy_component call c detaching s = Some s'"
  shows "sched s' = sched s"
proof (cases "fragment (comps s c) \<noteq> Frag_null")
  case False
  with assms(3) show ?thesis by (simp add: destroy_component_def)
next
  case True
  with assms(3) obtain a s1 s2 where
    "on_destroy (comps s c) = Some a"
    and s1: "run_all call (At_on_destroy c) (arrays s a) s = Some s1"
    and s2: "(case fragment (comps s1 c) of
                Frag b \<Rightarrow> invoke call (At_destroy_fragment c) (Hook b (H_d detaching)) s1
              | _ \<Rightarrow> Some s1) = Some s2"
    and s': "s' = set_comp c (\<lambda>k. k\<lparr>on_destroy := None, fragment := Frag_null, ctx := Some []\<rparr>) s2"
    by (auto simp: destroy_component_def bind_eq_Some_conv split: option.splits)
  from run_all_sched [OF assms(1) _ assms(2) s1] have e1: "sched s1 = sched s" by simp
  then have "flushing s1" using assms(2) by (simp add: sched_def)
  from frag_call_sched [OF assms(1) this _ s2] have "sched s2 = sched s1" by simp
  with e1 s' show ?thesis by simp
qed

lemma dollar_destroy_sched:
  assumes "keeps_guard call" "flushing s" "dollar_destroy call c s = Some s'"
  shows "sched s' = sched s"
  using assms(3) destroy_component_sched [OF assms(1,2)]
  by (auto simp: dollar_destroy_def bind_eq_Some_conv split: if_splits)

lemma mount_component_sched:
  assumes "keeps_guard call" "flushing s" "mount_component call c target anchor ce s = Some s'"
  shows "sched s' = sched s"
proof -
  from assms(3) obtain s1 where
    s1: "(case fragment (comps s c) of
            Frag b \<Rightarrow> invoke call (At_mount_fragment c) (Hook b (H_m target anchor)) s
          | _ \<Rightarrow> Some s) = Some s1"
    and s': "s' = fold add_render_callback (after_update (comps s c))
               (if \<not> ce
                then add_render_callback
                       (Mount_callback (next_closure s1) c (on_mount (comps s c)) (on_destroy (comps s c)))
                       (s1\<lparr>next_closure := next_closure s1 + 1\<rparr>)
                else s1)"
    by (auto simp: mount_component_def Let_def bind_eq_Some_conv)
  from frag_call_sched [OF assms(1,2) _ s1] have "sched s1 = sched s" by simp
  with s' show ?thesis by simp
qed

lemma mount_callback_sched:
  assumes "keeps_guard call" "flushing s" "mount_callback call c om od s = Some s'"
  shows "sched s' = sched s"
proof -
  from assms(3) obtain nd s1 s2 where
    s1: "map_run call (At_on_mount c) (arrays s om) s = Some (nd, s1)"
    and s2: "(case od of
                Some a \<Rightarrow> Some (s1\<lparr>arrays := (arrays s1)(a := arrays s1 a @ nd)\<rparr>)
              | None \<Rightarrow> run_all call (At_cleanup c) nd s1) = Some s2"
    and s': "s' = set_comp c (\<lambda>k. k\<lparr>on_mount := next_array s2\<rparr>)
                    (s2\<lparr>arrays := (arrays s2)(next_array s2 := []), next_array := next_array s2 + 1\<rparr>)"
    by (auto simp: mount_callback_def bind_eq_Some_conv split: prod.splits)
  from map_run_sched [OF assms(1) _ assms(2) s1] have e1: "sched s1 = sched s" by simp
  then have f1: "flushing s1" using assms(2) by (simp add: sched_def)
  have "sched s2 = sched s1"
    using s2 run_all_sched [OF assms(1) _ f1, of "At_cleanup c"]
    by (cases od) auto
  with e1 s' show ?thesis by simp
qed

lemma check_outros_sched:
  assumes "keeps_guard call" "flushing s" "check_outros call s = Some s'"
  shows "sched s' = sched s"
proof (cases "outros s")
  case Nil
  with assms(3) show ?thesis by (simp add: check_outros_def)
next
  case (Cons g gs)
  with assms(3) obtain s1 where
    s1: "(if group_r g = 0 then run_all call At_outros (group_c g) s else Some s) = Some s1"
    and s': "(case outros s1 of [] \<Rightarrow> None | _ # p \<Rightarrow> Some (s1\<lparr>outros := p\<rparr>)) = Some s'"
    by (auto simp: check_outros_def bind_eq_Some_conv)
  have e1: "sched s1 = sched s"
    using s1 run_all_sched [OF assms(1) _ assms(2), of At_outros]
    by (auto split: if_splits)
  from s' obtain q p where "outros s1 = q # p" "s' = s1\<lparr>outros := p\<rparr>"
    by (cases "outros s1") auto
  with e1 show ?thesis by simp
qed

lemma transition_out_sched:
  assumes "keeps_guard call" "flushing s" "transition_out call blk local detach callback s = Some s'"
  shows "sched s' = sched s"
proof (cases "\<exists>b. blk = Some b \<and> outro_hook s b \<and> b \<notin> outroing s")
  case False
  with assms(3) show ?thesis
    by (auto simp: transition_out_def split: option.splits if_splits)
next
  case True
  then obtain b where b: "blk = Some b" "outro_hook s b" "b \<notin> outroing s" by blast
  with assms(3) obtain g p where
    s1: "invoke call At_outro (Hook b (H_o local))
           (s\<lparr>outroing := insert b (outroing s),
              outros := g\<lparr>group_c := group_c g @ [Outro_done (next_closure s) b detach callback]\<rparr> # p,
              next_closure := next_closure s + 1\<rparr>) = Some s'"
    by (auto simp: transition_out_def split: list.splits)
  from invoke_sched [OF assms(1) _ _ s1] assms(2) show ?thesis by simp
qed

lemma outro_done_sched:
  assumes "keeps_guard call" "flushing s" "outro_done call b detach callback s = Some s'"
  shows "sched s' = sched s"
proof (cases callback)
  case None
  with assms(3) show ?thesis by (auto simp: outro_done_def Let_def)
next
  case (Some f)
  let ?s0 = "s\<lparr>outroing := outroing s - {b}\<rparr>"
  from Some assms(3) obtain s1 where
    s1: "(if detach then invoke call At_outro_detach (Hook b (H_d (Number (Fin 1)))) ?s0 else Some ?s0) = Some s1"
    and s2: "invoke call At_outro_callback (Fn f []) s1 = Some s'"
    by (auto simp: outro_done_def Let_def bind_eq_Some_conv)
  have f0: "flushing ?s0" using assms(2) by simp
  have e1: "sched s1 = sched s"
    using s1 invoke_sched [OF assms(1) f0, of At_outro_detach]
    by (auto split: if_splits)
  then have "flushing s1" using assms(2) by (simp add: sched_def)
  from invoke_sched [OF assms(1) this _ s2] e1 show ?thesis by simp
qed

lemma perform_sched:
  assumes "keeps_guard call" "flushing s" "perform call a s = Some s'"
  shows "sched s' = sched s"
proof (cases a)
  case Do_flush
  with assms show ?thesis by (simp add: flush_def)
next
  case (Do_invalidate c i ret rest)
  with assms invalidate_sched show ?thesis by simp
next
  case (Do_set c props)
  with assms dollar_set_sched show ?thesis by simp
next
  case (Do_destroy_component c d)
  with assms destroy_component_sched show ?thesis by simp
next
  case (Do_destroy c)
  with assms dollar_destroy_sched show ?thesis by simp
next
  case (Do_mount_component c t an ce)
  with assms mount_component_sched show ?thesis by simp
next
  case Do_check_outros
  with assms check_outros_sched show ?thesis by simp
next
  case (Do_transition_out blk l d cb)
  with assms transition_out_sched show ?thesis by simp
next
  case (Do_call f)
  with assms invoke_sched [of call s At_script] show ?thesis by simp
qed (use assms in auto)

lemma perform_all_sched:
  assumes "keeps_guard call"
  shows "flushing s \<Longrightarrow> perform_all call as s = Some s' \<Longrightarrow> sched s' = sched s"
proof (induction as arbitrary: s)
  case Nil
  then show ?case by simp
next
  case (Cons a as)
  from Cons.prems(2) obtain s1 where s1: "perform call a s = Some s1"
    and rest: "perform_all call as s1 = Some s'"
    by (auto simp: bind_eq_Some_conv)
  from perform_sched [OF assms Cons.prems(1) s1] have e: "sched s1 = sched s" .
  then have "flushing s1" using Cons.prems(1) by (simp add: sched_def)
  from Cons.IH [OF this rest] e show ?case by simp
qed

lemma run_keeps_guard: "keeps_guard (run n prog)"
proof (induction n)
  case 0
  show ?case by (simp add: keeps_guard_def)
next
  case (Suc n)
  show ?case
    unfolding keeps_guard_def
  proof (intro allI impI)
    fix f s r s'
    assume fl: "flushing s" and run: "run (Suc n) prog f s = Some (r, s')"
    show "sched s' = sched s"
    proof (cases f)
      case (Fn g args)
      show ?thesis
      proof (cases g)
        case (User k)
        with Fn run have "perform_all (run n prog) (body prog f s) s = Some s'" by auto
        from perform_all_sched [OF Suc fl this] show ?thesis .
      next
        case (Mount_callback k c om od)
        with Fn run have "mount_callback (run n prog) c om od s = Some s'" by auto
        from mount_callback_sched [OF Suc fl this] show ?thesis .
      next
        case (Outro_done k b d cb)
        with Fn run have "outro_done (run n prog) b d cb s = Some s'" by auto
        from outro_done_sched [OF Suc fl this] show ?thesis .
      qed
    next
      case (Hook b h)
      with run have "perform_all (run n prog) (body prog f s) s = Some s'" by auto
      from perform_all_sched [OF Suc fl this] show ?thesis .
    next
      case (Dollar_dollar_set c props)
      with run have "perform_all (run n prog) (body prog f s) s = Some s'" by auto
      from perform_all_sched [OF Suc fl this] show ?thesis .
    qed
  qed
qed

lemma flush_inv_sched: "sched s' = sched s \<Longrightarrow> flush_inv R S D s \<Longrightarrow> flush_inv R S D s'"
  by (simp add: flush_inv_def sched_def)

lemma flush_inv_flushing: "flush_inv R S D s \<Longrightarrow> flushing s"
  by (simp add: flush_inv_def)

lemma update_sched:
  assumes "keeps_guard call" "flushing s" "update call c s = Some s'"
  shows "sched s' = sched s"
proof (cases "fragment (comps s c) \<noteq> Frag_null")
  case False
  with assms(3) show ?thesis by (simp add: update_def)
next
  case True
  with assms(3) obtain s1 s2 s3 where
    s1: "invoke call (At_update c) (Fn (update_fn (comps s c)) []) s = Some s1"
    and s2: "run_all call (At_before_update c) (before_update (comps s1 c)) s1 = Some s2"
    and s3: "(case fragment (comps (set_comp c (\<lambda>k. k\<lparr>dirty := [Some (- 1)]\<rparr>) s2) c) of
                Frag b \<Rightarrow> invoke call (At_patch c)
                            (Hook b (H_p (ctx (comps (set_comp c (\<lambda>k. k\<lparr>dirty := [Some (- 1)]\<rparr>) s2) c))
                                         (dirty (comps s2 c))))
                            (set_comp c (\<lambda>k. k\<lparr>dirty := [Some (- 1)]\<rparr>) s2)
              | _ \<Rightarrow> Some (set_comp c (\<lambda>k. k\<lparr>dirty := [Some (- 1)]\<rparr>) s2)) = Some s3"
    and s': "s' = fold add_render_callback (after_update (comps s3 c)) s3"
    by (auto simp: update_def Let_def bind_eq_Some_conv)
  from invoke_sched [OF assms(1,2) _ s1] have e1: "sched s1 = sched s" by simp
  then have "flushing s1" using assms(2) by (simp add: sched_def)
  from run_all_sched [OF assms(1) _ this s2] have e2: "sched s2 = sched s1" by simp
  then have "flushing (set_comp c (\<lambda>k. k\<lparr>dirty := [Some (- 1)]\<rparr>) s2)"
    using \<open>flushing s1\<close> by (simp add: sched_def set_comp_def)
  from frag_call_sched [OF assms(1) this _ s3] have "sched s3 = sched s2" by simp
  with e1 e2 s' show ?thesis by simp
qed

lemma renders_marker [simp]: "renders [Enter_drain] = []" "renders [Leave_drain] = []"
  by (simp_all add: renders_def render_of_def map_filter_simps)

lemma drains_marker [simp]: "drains [Enter_drain] = [Enter_drain]" "drains [Leave_drain] = [Leave_drain]"
  by (simp_all add: drains_def)

lemma update_loop_inv:
  assumes "update_loop call i s = Some s'"
  shows "keeps_guard call \<Longrightarrow> flush_inv R S D s \<Longrightarrow> flush_inv R S D s'"
  using assms
proof (induction rule: update_loop.raw_induct [rotated 1, consumes 1, case_names step])
  case (step update_loop call i s s')
  show ?case
  proof (cases "i < length (dirty_components s)")
    case False
    with step(2) step(4) show ?thesis by simp
  next
    case True
    let ?c = "dirty_components s ! i"
    from True step(2) obtain s1 where
      s1: "update call ?c (s\<lparr>current_component := Some ?c\<rparr>) = Some s1"
      and rest: "update_loop call (i + 1) s1 = Some s'"
      by (auto simp: Let_def bind_eq_Some_conv)
    have "flushing (s\<lparr>current_component := Some ?c\<rparr>)"
      using step(4) by (simp add: flush_inv_def)
    from update_sched [OF step(3) this s1] have "sched s1 = sched s" by simp
    from flush_inv_sched [OF this step(4)] have "flush_inv R S D s1" .
    from step(1) [OF rest step(3) this] show ?thesis .
  qed
qed

lemma binding_loop_inv:
  assumes "binding_loop call s = Some s'"
  shows "keeps_guard call \<Longrightarrow> flush_inv R S D s \<Longrightarrow> flush_inv R S D s'"
  using assms
proof (induction rule: binding_loop.raw_induct [rotated 1, consumes 1, case_names step])
  case (step binding_loop call s s')
  show ?case
  proof (cases "binding_callbacks s \<noteq> []")
    case False
    with step(2) step(4) show ?thesis by simp
  next
    case True
    let ?s0 = "s\<lparr>binding_callbacks := butlast (binding_callbacks s)\<rparr>"
    from True step(2) obtain s1 where
      s1: "invoke call At_binding (Fn (last (binding_callbacks s)) []) ?s0 = Some s1"
      and rest: "binding_loop call s1 = Some s'"
      by (auto simp: Let_def bind_eq_Some_conv)
    have "flushing ?s0" using step(4) by (simp add: flush_inv_def)
    from invoke_sched [OF step(3) this _ s1] have "sched s1 = sched s" by simp
    from flush_inv_sched [OF this step(4)] have "flush_inv R S D s1" .
    from step(1) [OF rest step(3) this] show ?thesis .
  qed
qed

lemma flush_callbacks_loop_inv:
  assumes "flush_callbacks_loop call s = Some s'"
  shows "keeps_guard call \<Longrightarrow> flush_inv R S D s \<Longrightarrow> flush_inv R S D s'"
  using assms
proof (induction rule: flush_callbacks_loop.raw_induct [rotated 1, consumes 1, case_names step])
  case (step flush_callbacks_loop call s s')
  show ?case
  proof (cases "flush_callbacks s \<noteq> []")
    case False
    with step(2) step(4) show ?thesis by simp
  next
    case True
    let ?s0 = "s\<lparr>flush_callbacks := butlast (flush_callbacks s)\<rparr>"
    from True step(2) obtain s1 where
      s1: "invoke call At_flush_callback (Fn (last (flush_callbacks s)) []) ?s0 = Some s1"
      and rest: "flush_callbacks_loop call s1 = Some s'"
      by (auto simp: Let_def bind_eq_Some_conv)
    have "flushing ?s0" using step(4) by (simp add: flush_inv_def)
    from invoke_sched [OF step(3) this _ s1] have "sched s1 = sched s" by simp
    from flush_inv_sched [OF this step(4)] have "flush_inv R S D s1" .
    from step(1) [OF rest step(3) this] show ?thesis .
  qed
qed

lemma render_step_inv:
  assumes "keeps_guard call" "flush_inv R S D s" "f \<notin> seen_callbacks s"
    and "invoke call At_render (Fn f []) (s\<lparr>seen_callbacks := insert f (seen_callbacks s)\<rparr>) = Some s1"
  shows "flush_inv R S D s1"
proof -
  let ?s0 = "s\<lparr>seen_callbacks := insert f (seen_callbacks s)\<rparr>"
  let ?s0' = "?s0\<lparr>trace := trace ?s0 @ [Called At_render (Fn f [])]\<rparr>"
  from assms(4) obtain r where c: "call (Fn f []) ?s0' = Some (r, s1)"
    by (auto simp: invoke_def invoke_result_def)
  have "flushing ?s0'" using assms(2) by (simp add: flush_inv_def)
  with assms(1) c have e: "sched s1 = sched ?s0'" unfolding keeps_guard_def by blast
  from assms(2) obtain new where new: "renders (trace s) = R @ new" "distinct new"
    "set new \<inter> S = {}" "seen_callbacks s = S \<union> set new" "flushing s" "drains (trace s) = D"
    by (auto simp: flush_inv_def)
  from assms(3) new(4) have "f \<notin> S" "f \<notin> set new" by auto
  with new e show ?thesis
    unfolding flush_inv_def sched_def
    by (auto intro!: exI [of _ "new @ [f]"])
qed

lemma render_loop_inv:
  assumes "render_loop call i s = Some s'"
  shows "keeps_guard call \<Longrightarrow> flush_inv R S D s \<Longrightarrow> flush_inv R S D s'"
  using assms
proof (induction rule: render_loop.raw_induct [rotated 1, consumes 1, case_names step])
  case (step render_loop call i s s')
  show ?case
  proof (cases "i < length (render_callbacks s)")
    case False
    with step(2) step(4) show ?thesis by simp
  next
    case True
    let ?f = "render_callbacks s ! i"
    from True step(2) obtain s1 where
      s1: "(if ?f \<notin> seen_callbacks s
            then invoke call At_render (Fn ?f []) (s\<lparr>seen_callbacks := insert ?f (seen_callbacks s)\<rparr>)
            else Some s) = Some s1"
      and rest: "render_loop call (i + 1) s1 = Some s'"
      by (auto simp: Let_def bind_eq_Some_conv)
    have "flush_inv R S D s1"
    proof (cases "?f \<in> seen_callbacks s")
      case True
      with s1 step(4) show ?thesis by simp
    next
      case False
      with s1 render_step_inv [OF step(3) step(4) False] show ?thesis by simp
    qed
    from step(1) [OF rest step(3) this] show ?thesis .
  qed
qed

lemma drain_inv:
  assumes "drain call s = Some s'"
  shows "keeps_guard call \<Longrightarrow> flush_inv R S D s \<Longrightarrow> flush_inv R S D s'"
  using assms
proof (induction rule: drain.raw_induct [rotated 1, consumes 1, case_names step])
  case (step drain call s s')
  from step(2) obtain s1 s2 s3 where
    s1: "update_loop call 0 s = Some s1"
    and s2: "binding_loop call (s1\<lparr>current_component := None, dirty_components := []\<rparr>) = Some s2"
    and s3: "render_loop call 0 s2 = Some s3"
    and rest: "(if dirty_components s3 \<noteq> []
                then drain call (s3\<lparr>render_callbacks := []\<rparr>)
                else Some (s3\<lparr>render_callbacks := []\<rparr>)) = Some s'"
    by (auto simp: Let_def bind_eq_Some_conv)
  from update_loop_inv [OF s1 step(3) step(4)] have "flush_inv R S D s1" .
  then have "flush_inv R S D (s1\<lparr>current_component := None, dirty_components := []\<rparr>)"
    by (simp add: flush_inv_def)
  from binding_loop_inv [OF s2 step(3) this] have "flush_inv R S D s2" .
  from render_loop_inv [OF s3 step(3) this] have "flush_inv R S D s3" .
  then have i3: "flush_inv R S D (s3\<lparr>render_callbacks := []\<rparr>)"
    by (simp add: flush_inv_def)
  show ?case
  proof (cases "dirty_components s3 \<noteq> []")
    case True
    with rest have "drain call (s3\<lparr>render_callbacks := []\<rparr>) = Some s'" by simp
    from step(1) [OF this step(3) i3] show ?thesis .
  next
    case False
    with rest i3 show ?thesis by simp
  qed
qed

lemma flush_outer:
  assumes "keeps_guard call" "\<not> flushing s" "flush call s = Some s'"
  shows "\<exists>new. renders (trace s') = renders (trace s) @ new \<and> distinct new \<and>
               set new \<inter> seen_callbacks s = {}"
    and "drains (trace s') = drains (trace s) @ [Enter_drain, Leave_drain]"
    and "seen_callbacks s' = {}" and "\<not> flushing s'"
proof -
  let ?s0 = "s\<lparr>flushing := True, trace := trace s @ [Enter_drain]\<rparr>"
  from assms(2,3) obtain s1 s2 where
    s1: "drain call ?s0 = Some s1"
    and s2: "flush_callbacks_loop call s1 = Some s2"
    and s': "s' = s2\<lparr>update_scheduled := False, flushing := False, seen_callbacks := {},
                      trace := trace s2 @ [Leave_drain]\<rparr>"
    by (auto simp: flush_def Let_def bind_eq_Some_conv)
  have "flush_inv (renders (trace s)) (seen_callbacks s) (drains (trace s) @ [Enter_drain]) ?s0"
    by (simp add: flush_inv_def)
  from drain_inv [OF s1 assms(1) this]
  have "flush_inv (renders (trace s)) (seen_callbacks s) (drains (trace s) @ [Enter_drain]) s1" .
  from flush_callbacks_loop_inv [OF s2 assms(1) this]
  have i2: "flush_inv (renders (trace s)) (seen_callbacks s) (drains (trace s) @ [Enter_drain]) s2" .
  from i2 s' show "\<exists>new. renders (trace s') = renders (trace s) @ new \<and> distinct new \<and>
               set new \<inter> seen_callbacks s = {}"
    by (auto simp: flush_inv_def)
  from i2 s' show "drains (trace s') = drains (trace s) @ [Enter_drain, Leave_drain]"
    by (auto simp: flush_inv_def)
  from s' show "seen_callbacks s' = {}" and "\<not> flushing s'" by simp_all
qed

section \<open>Unfolding calls and evaluating examples\<close>

lemma run_Suc:
  "run (Suc n) prog (Fn (User k) args) s =
     map_option (Pair (result prog (Fn (User k) args) s))
       (perform_all (run n prog) (body prog (Fn (User k) args) s) s)"
  "run (Suc n) prog (Hook b h) s =
     map_option (Pair (result prog (Hook b h) s))
       (perform_all (run n prog) (body prog (Hook b h) s) s)"
  "run (Suc n) prog (Dollar_dollar_set c props) s =
     map_option (Pair (result prog (Dollar_dollar_set c props) s))
       (perform_all (run n prog) (body prog (Dollar_dollar_set c props) s) s)"
  "run (Suc n) prog (Fn (Outro_done k b d cb) args) s =
     map_option (Pair None) (outro_done (run n prog) b d cb s)"
  "run (Suc n) prog (Fn (Mount_callback k c om od) args) s =
     map_option (Pair None) (mount_callback (run n prog) c om od s)"
  by simp_all

declare run.simps(2) [simp del]

lemma run_idle:
  "run (Suc n) idle (Hook b h) s = Some (None, s)"
  "run (Suc n) idle (Fn (User k) args) s = Some (None, s)"
  "run (Suc n) idle (Dollar_dollar_set c props) s = Some (None, s)"
  by (simp_all add: run_Suc idle_def)

lemmas eval_defs =
  start_def new_component_def set_comp_def make_dirty_def schedule_update_def sentinel_def
  fill_zero_def or_assign_def dirty_word_def add_render_callback_def invoke_def invoke_result_def
  update_def flush_def Let_def noop_def quiet_def run_Suc
  update_loop.simps binding_loop.simps render_loop.simps drain.simps flush_callbacks_loop.simps
  invalidate_def js_load_def js_store_def safe_not_equal_Boolean
  renders_def render_of_def drains_def updates_def update_of_def patches_def patch_of_def
  destroys_def destroy_of_def map_filter_simps

section \<open>Reentrancy of flush\<close>

text \<open>
  C3. If \<open>flush\<close> is invoked while the \<open>flushing\<close> flag is set, it returns at once and
  the state it leaves is the state it found, whatever the meaning of calls: no queue is
  drained, no callee is called (the trace is the same) and no variable of the scheduler
  is changed. Consequently the body of \<open>flush\<close> never runs overlapped with itself:
  whatever the functions outside the runtime do, a \<open>flush\<close> that starts with the flag
  cleared and returns has entered its body once and left it once, with no entry in
  between.
\<close>

theorem flush_reentrancy_guard:
  "(flushing t \<longrightarrow> flush call t = Some t) \<and>
   (\<not> flushing s \<and> flush (run n prog) s = Some s' \<longrightarrow>
      drains (trace s') = drains (trace s) @ [Enter_drain, Leave_drain])"
  using flush_outer(2) [OF run_keeps_guard] by (auto simp: flush_def)

theorem flush_reentrancy_guard_witness:
  "flushing (ex_after_update\<lparr>flushing := True\<rparr>) \<and>
   flush quiet (ex_after_update\<lparr>flushing := True\<rparr>) = Some (ex_after_update\<lparr>flushing := True\<rparr>) \<and>
   \<not> flushing ex_after_update \<and>
   (\<exists>s'. flush (run (Suc 0) again) ex_after_update = Some s' \<and>
         drains (trace s') = drains (trace ex_after_update) @ [Enter_drain, Leave_drain])"
proof -
  have nf: "\<not> flushing ex_after_update"
    by (simp add: ex_after_update_def eval_defs)
  have "\<exists>s'. flush (run (Suc 0) again) ex_after_update = Some s'"
    by (simp add: ex_after_update_def again_def eval_defs)
  then obtain s' where s': "flush (run (Suc 0) again) ex_after_update = Some s'" ..
  from flush_reentrancy_guard
    [of "ex_after_update\<lparr>flushing := True\<rparr>" quiet ex_after_update "Suc 0" again s'] nf s'
  show ?thesis by simp
qed

section \<open>Render callbacks fire once per flush\<close>

text \<open>
  C4. Within one outer \<open>flush\<close> (entered with the flag cleared, and returning), whatever
  the functions outside the runtime do, the functions that the render loop calls are
  pairwise different and none of them was in the seen set on entry: every
  render-callback function is called at most once, across all passes of the do-while
  loop. The seen set is empty when the outer flush returns, and no call made while
  flushing changes it, so it is cleared only there.
\<close>

theorem render_callbacks_fire_once:
  assumes "\<not> flushing s" and "flush (run n prog) s = Some s'"
  shows "(\<exists>new. renders (trace s') = renders (trace s) @ new \<and> distinct new \<and>
                set new \<inter> seen_callbacks s = {}) \<and>
         seen_callbacks s' = {} \<and>
         (\<forall>f t r t'. flushing t \<and> run n prog f t = Some (r, t') \<longrightarrow>
                     seen_callbacks t' = seen_callbacks t \<and> flushing t')"
proof -
  have "seen_callbacks t' = seen_callbacks t \<and> flushing t'"
    if "flushing t" "run n prog f t = Some (r, t')" for f t r t'
    using run_keeps_guard [of n prog] that unfolding keeps_guard_def sched_def by fastforce
  with flush_outer(1,3) [OF run_keeps_guard assms] show ?thesis by blast
qed

text \<open>
  In the example the after-update callback marks the component dirty, so the do-while
  loop makes a second pass (the component is updated twice), and the callback, queued
  again by the second update, is called once.
\<close>

theorem render_callbacks_fire_once_witness:
  "\<not> flushing ex_after_update \<and>
   (\<exists>s'. flush (run (Suc 0) again) ex_after_update = Some s' \<and>
         updates 0 (trace s') = 2 \<and> renders (trace s') = [User 5] \<and>
         (\<exists>new. renders (trace s') = renders (trace ex_after_update) @ new \<and> distinct new \<and>
                set new \<inter> seen_callbacks ex_after_update = {}) \<and>
         seen_callbacks s' = {})"
proof -
  have nf: "\<not> flushing ex_after_update"
    by (simp add: ex_after_update_def eval_defs)
  have "\<exists>s'. flush (run (Suc 0) again) ex_after_update = Some s' \<and>
          updates 0 (trace s') = 2 \<and> renders (trace s') = [User 5]"
    by (simp add: ex_after_update_def again_def eval_defs)
  then obtain s' where s': "flush (run (Suc 0) again) ex_after_update = Some s'"
    "updates 0 (trace s') = 2" "renders (trace s') = [User 5]" by blast
  from render_callbacks_fire_once [OF nf s'(1)] s' nf show ?thesis by blast
qed

section \<open>Flushing when callees do no further dirtying\<close>

lemma updates_append [simp]: "updates c (xs @ ys) = updates c xs + updates c ys"
  by (simp add: updates_def)

lemma patches_append [simp]: "patches c (xs @ ys) = patches c xs @ patches c ys"
  by (induction xs) (simp_all add: patches_def map_filter_simps split: option.splits)

lemma updates_single [simp]:
  "updates c [Called site f] = (if site = At_update c then 1 else 0)"
  "updates c [Enter_drain] = 0" "updates c [Leave_drain] = 0"
  by (simp_all add: updates_def update_of_def)

lemma patches_single [simp]:
  "site \<noteq> At_patch c \<Longrightarrow> patches c [Called site f] = []"
  "patches c [Called (At_patch c) (Hook b (H_p x d))] = [d]"
  "patches c [Enter_drain] = []" "patches c [Leave_drain] = []"
  by (simp_all add: patches_def patch_of_def map_filter_simps split: callee.splits hook.splits)

lemma invoke_settled:
  assumes "settled call"
  shows "\<exists>s'. invoke call site f s = Some s' \<and> queues s' = queues s \<and>
           (\<forall>c. watch c s' = watch c (s\<lparr>trace := trace s @ [Called site f]\<rparr>))"
proof -
  let ?s0 = "s\<lparr>trace := trace s @ [Called site f]\<rparr>"
  from assms obtain r s' where "call f ?s0 = Some (r, s')" "queues s' = queues ?s0"
    "\<forall>c. watch c s' = watch c ?s0"
    unfolding settled_def by blast
  then show ?thesis by (auto simp: invoke_def invoke_result_def queues_def)
qed

lemma invoke_settled_other:
  assumes "settled call" "\<forall>c. site \<noteq> At_update c \<and> site \<noteq> At_patch c"
  shows "\<exists>s'. invoke call site f s = Some s' \<and> queues s' = queues s \<and> (\<forall>c. watch c s' = watch c s)"
proof -
  from invoke_settled [OF assms(1), of site f s] obtain s' where
    "invoke call site f s = Some s'" "queues s' = queues s"
    "\<forall>c. watch c s' = watch c (s\<lparr>trace := trace s @ [Called site f]\<rparr>)" by blast
  moreover have "watch c (s\<lparr>trace := trace s @ [Called site f]\<rparr>) = watch c s" for c
    using assms(2) by (simp add: watch_def)
  ultimately show ?thesis by auto
qed

lemma run_all_settled:
  assumes "settled call" "\<forall>c. site \<noteq> At_update c \<and> site \<noteq> At_patch c"
  shows "\<exists>s'. run_all call site fs s = Some s' \<and> queues s' = queues s \<and> (\<forall>c. watch c s' = watch c s)"
proof (induction fs arbitrary: s)
  case Nil
  show ?case by simp
next
  case (Cons f fs)
  from invoke_settled_other [OF assms, of "Fn f []" s] obtain s1 where
    s1: "invoke call site (Fn f []) s = Some s1" "queues s1 = queues s" "\<forall>c. watch c s1 = watch c s"
    by blast
  from Cons.IH [of s1] obtain s' where
    "run_all call site fs s1 = Some s'" "queues s' = queues s1" "\<forall>c. watch c s' = watch c s1"
    by blast
  with s1 show ?case by auto
qed

lemma queues_fold_add:
  "queues (fold add_render_callback fs s) =
     (dirty_components s, binding_callbacks s, render_callbacks s @ fs, flush_callbacks s)"
  by (induction fs arbitrary: s) (simp_all add: queues_def add_render_callback_def)

lemma fold_add_fields [simp]:
  "dirty_components (fold add_render_callback fs s) = dirty_components s"
  "binding_callbacks (fold add_render_callback fs s) = binding_callbacks s"
  "flush_callbacks (fold add_render_callback fs s) = flush_callbacks s"
  "render_callbacks (fold add_render_callback fs s) = render_callbacks s @ fs"
  "comps (fold add_render_callback fs s) = comps s"
  "trace (fold add_render_callback fs s) = trace s"
  by (induction fs arbitrary: s) (simp_all add: add_render_callback_def)

lemma watch_fold_add [simp]: "watch c (fold add_render_callback fs s) = watch c s"
  by (induction fs arbitrary: s) (simp_all add: watch_def add_render_callback_def)

text \<open>What one call of update does to the queues and to a watched component.\<close>

lemma update_settled:
  assumes "settled call"
  shows "\<exists>s'. update call d s = Some s' \<and>
           dirty_components s' = dirty_components s \<and>
           binding_callbacks s' = binding_callbacks s \<and>
           flush_callbacks s' = flush_callbacks s \<and>
           (\<forall>c. fragment (comps s' c) = fragment (comps s c)) \<and>
           (\<forall>c. c \<noteq> d \<longrightarrow> watch c s' = watch c s) \<and>
           (\<forall>b. fragment (comps s d) = Frag b \<longrightarrow>
                dirty (comps s' d) = [Some (- 1)] \<and>
                updates d (trace s') = updates d (trace s) + 1 \<and>
                patches d (trace s') = patches d (trace s) @ [dirty (comps s d)])"
proof (cases "fragment (comps s d) \<noteq> Frag_null")
  case False
  then show ?thesis by (simp add: update_def)
next
  case True
  from invoke_settled [OF assms, of "At_update d" "Fn (update_fn (comps s d)) []" s] obtain s1 where
    s1: "invoke call (At_update d) (Fn (update_fn (comps s d)) []) s = Some s1" "queues s1 = queues s"
      "\<forall>c. watch c s1 = watch c (s\<lparr>trace := trace s @ [Called (At_update d) (Fn (update_fn (comps s d)) [])]\<rparr>)"
    by blast
  from run_all_settled [OF assms, of "At_before_update d" "before_update (comps s1 d)" s1] obtain s2 where
    s2: "run_all call (At_before_update d) (before_update (comps s1 d)) s1 = Some s2"
      "queues s2 = queues s1" "\<forall>c. watch c s2 = watch c s1"
    by auto
  let ?s2' = "set_comp d (\<lambda>k. k\<lparr>dirty := [Some (- 1)]\<rparr>) s2"
  have w2: "watch c s2 = (fragment (comps s c), dirty (comps s c),
              updates c (trace s) + (if c = d then 1 else 0), patches c (trace s))" for c
    using s1(3) s2(3) by (auto simp: watch_def)
  have fr2: "fragment (comps ?s2' d) = fragment (comps s d)"
    using w2 [of d] by (simp add: watch_def set_comp_def)
  show ?thesis
  proof (cases "fragment (comps s d)")
    case Frag_null
    with True show ?thesis by simp
  next
    case Frag_false
    let ?s' = "fold add_render_callback (after_update (comps ?s2' d)) ?s2'"
    have "update call d s = Some ?s'"
      using True s1(1) s2(1) fr2 Frag_false by (simp add: update_def Let_def)
    moreover have "queues ?s2' = queues s" using s1(2) s2(2) by (simp add: queues_def set_comp_def)
    moreover have "watch c ?s2' = watch c s" if "c \<noteq> d" for c
      using w2 [of c] that by (simp add: watch_def set_comp_def)
    moreover have "fragment (comps ?s2' c) = fragment (comps s c)" for c
      using w2 [of c] by (auto simp: watch_def set_comp_def)
    ultimately show ?thesis using Frag_false
      by (auto simp: queues_def queues_fold_add add_render_callback_def)
  next
    case (Frag b)
    let ?h = "Hook b (H_p (ctx (comps ?s2' d)) (dirty (comps s2 d)))"
    from invoke_settled [OF assms, of "At_patch d" ?h ?s2'] obtain s3 where
      s3: "invoke call (At_patch d) ?h ?s2' = Some s3" "queues s3 = queues ?s2'"
        "\<forall>c. watch c s3 = watch c (?s2'\<lparr>trace := trace ?s2' @ [Called (At_patch d) ?h]\<rparr>)"
      by blast
    let ?s' = "fold add_render_callback (after_update (comps s3 d)) s3"
    have "update call d s = Some ?s'"
      using True s1(1) s2(1) s3(1) fr2 Frag by (simp add: update_def Let_def)
    moreover have q3: "queues s3 = queues s" using s1(2) s2(2) s3(2) by (simp add: queues_def set_comp_def)
    moreover have d2: "dirty (comps s2 d) = dirty (comps s d)"
      using w2 [of d] by (simp add: watch_def)
    have w3: "watch c s3 = watch c s" if "c \<noteq> d" for c
      using s3(3) w2 [of c] that by (simp add: watch_def set_comp_def)
    have w3d: "watch d s3 = (Frag b, [Some (- 1)], updates d (trace s) + 1,
                 patches d (trace s) @ [dirty (comps s d)])"
      using s3(3) w2 [of d] d2 Frag by (simp add: watch_def set_comp_def)
    have "fragment (comps s3 c) = fragment (comps s c)" for c
      using w3 [of c] w3d Frag by (cases "c = d") (simp_all add: watch_def)
    ultimately show ?thesis using Frag w3 w3d
      by (auto simp: queues_def watch_def)
  qed
qed

lemma update_loop_others:
  assumes "settled call"
  shows "dirty_components s = Q \<Longrightarrow> i \<le> j \<Longrightarrow> j \<le> length Q \<Longrightarrow>
         (\<forall>k. i \<le> k \<and> k < j \<longrightarrow> Q ! k \<noteq> c) \<Longrightarrow>
         \<exists>s1. update_loop call i s = update_loop call j s1 \<and> dirty_components s1 = Q \<and>
              binding_callbacks s1 = binding_callbacks s \<and>
              flush_callbacks s1 = flush_callbacks s \<and> watch c s1 = watch c s"
proof (induction "j - i" arbitrary: i s)
  case 0
  then have "i = j" by simp
  with 0 show ?case by auto
next
  case (Suc n)
  then have lt: "i < j" "i < length Q" by simp_all
  let ?d = "Q ! i"
  let ?s0 = "s\<lparr>current_component := Some ?d\<rparr>"
  have neq: "c \<noteq> ?d" using Suc.prems(4) lt by auto
  from update_settled [OF assms, of ?d ?s0] obtain s1 where
    s1: "update call ?d ?s0 = Some s1" "dirty_components s1 = dirty_components ?s0"
      "binding_callbacks s1 = binding_callbacks ?s0" "flush_callbacks s1 = flush_callbacks ?s0"
      "\<forall>c. c \<noteq> ?d \<longrightarrow> watch c s1 = watch c ?s0"
    by blast
  have step: "update_loop call i s = update_loop call (i + 1) s1"
    using lt Suc.prems(1) s1(1) by (subst update_loop.simps) (simp add: Let_def)
  have "n = j - (i + 1)" using Suc(2) by simp
  from Suc(1) [OF this, of s1] Suc.prems s1(2) lt
  obtain s2 where "update_loop call (i + 1) s1 = update_loop call j s2" "dirty_components s2 = Q"
    "binding_callbacks s2 = binding_callbacks s1" "flush_callbacks s2 = flush_callbacks s1"
    "watch c s2 = watch c s1"
    by auto
  moreover have "watch c s1 = watch c s" using s1(5) neq by (simp add: watch_def)
  ultimately show ?case using step s1 by auto
qed

lemma update_loop_settled:
  assumes "settled call" "dirty_components s = ds @ [c]" "c \<notin> set ds" "fragment (comps s c) = Frag b"
  shows "\<exists>s'. update_loop call 0 s = Some s' \<and> dirty_components s' = ds @ [c] \<and>
           binding_callbacks s' = binding_callbacks s \<and> flush_callbacks s' = flush_callbacks s \<and>
           fragment (comps s' c) = Frag b \<and> dirty (comps s' c) = [Some (- 1)] \<and>
           updates c (trace s') = updates c (trace s) + 1 \<and>
           patches c (trace s') = patches c (trace s) @ [dirty (comps s c)]"
proof -
  have "\<forall>k. 0 \<le> k \<and> k < length ds \<longrightarrow> (ds @ [c]) ! k \<noteq> c"
    using assms(3) by (auto simp: nth_append)
  with update_loop_others [OF assms(1,2), of 0 "length ds" c] obtain s1 where
    s1: "update_loop call 0 s = update_loop call (length ds) s1" "dirty_components s1 = ds @ [c]"
      "binding_callbacks s1 = binding_callbacks s" "flush_callbacks s1 = flush_callbacks s"
      "watch c s1 = watch c s"
    by auto
  let ?s0 = "s1\<lparr>current_component := Some c\<rparr>"
  have fr: "fragment (comps ?s0 c) = Frag b" using s1(5) assms(4) by (simp add: watch_def)
  from update_settled [OF assms(1), of c ?s0] fr obtain s2 where
    s2: "update call c ?s0 = Some s2" "dirty_components s2 = dirty_components ?s0"
      "binding_callbacks s2 = binding_callbacks ?s0" "flush_callbacks s2 = flush_callbacks ?s0"
      "fragment (comps s2 c) = fragment (comps ?s0 c)"
      "dirty (comps s2 c) = [Some (- 1)]"
      "updates c (trace s2) = updates c (trace ?s0) + 1"
      "patches c (trace s2) = patches c (trace ?s0) @ [dirty (comps ?s0 c)]"
    by blast
  have "update_loop call (length ds) s1 = update_loop call (length ds + 1) s2"
    using s1(2) s2(1) by (subst update_loop.simps) (simp add: Let_def)
  also have "\<dots> = Some s2"
    using s2(2) s1(2) by (subst update_loop.simps) simp
  finally have "update_loop call 0 s = Some s2" using s1(1) by simp
  then show ?thesis using s2 s1 fr by (auto simp: watch_def)
qed

lemma binding_loop_settled:
  assumes "settled call"
  shows "\<exists>s'. binding_loop call s = Some s' \<and> dirty_components s' = dirty_components s \<and>
           render_callbacks s' = render_callbacks s \<and> flush_callbacks s' = flush_callbacks s \<and>
           (\<forall>c. watch c s' = watch c s)"
proof (induction "length (binding_callbacks s)" arbitrary: s)
  case 0
  then show ?case by (subst binding_loop.simps) simp
next
  case (Suc n)
  then have ne: "binding_callbacks s \<noteq> []" by auto
  let ?s0 = "s\<lparr>binding_callbacks := butlast (binding_callbacks s)\<rparr>"
  from invoke_settled_other [OF assms, of At_binding "Fn (last (binding_callbacks s)) []" ?s0]
  obtain s1 where s1: "invoke call At_binding (Fn (last (binding_callbacks s)) []) ?s0 = Some s1"
    "queues s1 = queues ?s0" "\<forall>c. watch c s1 = watch c ?s0"
    by auto
  have "n = length (binding_callbacks s1)" using Suc(2) s1(2) by (simp add: queues_def)
  from Suc(1) [OF this] obtain s' where
    s': "binding_loop call s1 = Some s'" "dirty_components s' = dirty_components s1"
      "render_callbacks s' = render_callbacks s1" "flush_callbacks s' = flush_callbacks s1"
      "\<forall>c. watch c s' = watch c s1"
    by blast
  have "binding_loop call s = binding_loop call s1"
    using ne s1(1) by (subst binding_loop.simps) (simp add: Let_def)
  with s' s1 show ?case by (auto simp: queues_def watch_def)
qed

lemma flush_callbacks_loop_settled:
  assumes "settled call"
  shows "\<exists>s'. flush_callbacks_loop call s = Some s' \<and> dirty_components s' = dirty_components s \<and>
           (\<forall>c. watch c s' = watch c s)"
proof (induction "length (flush_callbacks s)" arbitrary: s)
  case 0
  then show ?case by (subst flush_callbacks_loop.simps) simp
next
  case (Suc n)
  then have ne: "flush_callbacks s \<noteq> []" by auto
  let ?s0 = "s\<lparr>flush_callbacks := butlast (flush_callbacks s)\<rparr>"
  from invoke_settled_other [OF assms, of At_flush_callback "Fn (last (flush_callbacks s)) []" ?s0]
  obtain s1 where s1: "invoke call At_flush_callback (Fn (last (flush_callbacks s)) []) ?s0 = Some s1"
    "queues s1 = queues ?s0" "\<forall>c. watch c s1 = watch c ?s0"
    by auto
  have "n = length (flush_callbacks s1)" using Suc(2) s1(2) by (simp add: queues_def)
  from Suc(1) [OF this] obtain s' where
    s': "flush_callbacks_loop call s1 = Some s'" "dirty_components s' = dirty_components s1"
      "\<forall>c. watch c s' = watch c s1"
    by blast
  have "flush_callbacks_loop call s = flush_callbacks_loop call s1"
    using ne s1(1) by (subst flush_callbacks_loop.simps) (simp add: Let_def)
  with s' s1 show ?case by (auto simp: queues_def watch_def)
qed

lemma render_loop_settled:
  assumes "settled call"
  shows "\<exists>s'. render_loop call i s = Some s' \<and> dirty_components s' = dirty_components s \<and>
           flush_callbacks s' = flush_callbacks s \<and> (\<forall>c. watch c s' = watch c s)"
proof (induction "length (render_callbacks s) - i" arbitrary: i s)
  case 0
  then show ?case by (subst render_loop.simps) simp
next
  case (Suc n)
  then have lt: "i < length (render_callbacks s)" by simp
  let ?f = "render_callbacks s ! i"
  let ?s0 = "s\<lparr>seen_callbacks := insert ?f (seen_callbacks s)\<rparr>"
  have "\<exists>s1. (if ?f \<notin> seen_callbacks s then invoke call At_render (Fn ?f []) ?s0 else Some s) = Some s1 \<and>
          queues s1 = queues s \<and> (\<forall>c. watch c s1 = watch c s)"
  proof (cases "?f \<in> seen_callbacks s")
    case True
    then show ?thesis by simp
  next
    case False
    from invoke_settled_other [OF assms, of At_render "Fn ?f []" ?s0] obtain s1 where
      "invoke call At_render (Fn ?f []) ?s0 = Some s1"
      "queues s1 = queues ?s0" "\<forall>c. watch c s1 = watch c ?s0"
      by auto
    with False show ?thesis by (auto simp: queues_def watch_def)
  qed
  then obtain s1 where s1:
    "(if ?f \<notin> seen_callbacks s then invoke call At_render (Fn ?f []) ?s0 else Some s) = Some s1"
    "queues s1 = queues s" "\<forall>c. watch c s1 = watch c s"
    by blast
  have "n = length (render_callbacks s1) - (i + 1)" using Suc(2) s1(2) by (simp add: queues_def)
  from Suc(1) [OF this] obtain s' where
    s': "render_loop call (i + 1) s1 = Some s'" "dirty_components s' = dirty_components s1"
      "flush_callbacks s' = flush_callbacks s1" "\<forall>c. watch c s' = watch c s1"
    by blast
  have "render_loop call i s = render_loop call (i + 1) s1"
    using lt s1(1) by (subst render_loop.simps) (simp add: Let_def)
  with s' s1 show ?case by (auto simp: queues_def)
qed

lemma flush_settled:
  assumes "settled call" "\<not> flushing s" "dirty_components s = ds @ [c]" "c \<notin> set ds"
    and "fragment (comps s c) = Frag b"
  shows "\<exists>s'. flush call s = Some s' \<and>
           updates c (trace s') = updates c (trace s) + 1 \<and>
           patches c (trace s') = patches c (trace s) @ [dirty (comps s c)] \<and>
           dirty (comps s' c) = [Some (- 1)] \<and> dirty_components s' = [] \<and>
           \<not> flushing s' \<and> \<not> update_scheduled s'"
proof -
  let ?s0 = "s\<lparr>flushing := True, trace := trace s @ [Enter_drain]\<rparr>"
  have q0: "dirty_components ?s0 = ds @ [c]" "fragment (comps ?s0 c) = Frag b"
    using assms(3,5) by simp_all
  from update_loop_settled [OF assms(1) q0(1) assms(4) q0(2)] obtain s1 where
    s1: "update_loop call 0 ?s0 = Some s1"
      "dirty (comps s1 c) = [Some (- 1)]"
      "updates c (trace s1) = updates c (trace ?s0) + 1"
      "patches c (trace s1) = patches c (trace ?s0) @ [dirty (comps ?s0 c)]"
    by blast
  let ?s1' = "s1\<lparr>current_component := None, dirty_components := []\<rparr>"
  from binding_loop_settled [OF assms(1), of ?s1'] obtain s2 where
    s2: "binding_loop call ?s1' = Some s2" "dirty_components s2 = dirty_components ?s1'"
      "\<forall>c. watch c s2 = watch c ?s1'"
    by blast
  from render_loop_settled [OF assms(1), of 0 s2] obtain s3 where
    s3: "render_loop call 0 s2 = Some s3" "dirty_components s3 = dirty_components s2"
      "\<forall>c. watch c s3 = watch c s2"
    by blast
  let ?s3' = "s3\<lparr>render_callbacks := []\<rparr>"
  have d: "drain call ?s0 = Some ?s3'"
    using s1(1) s2(1,2) s3(1,2) by (subst drain.simps) (simp add: Let_def)
  from flush_callbacks_loop_settled [OF assms(1), of ?s3'] obtain s4 where
    s4: "flush_callbacks_loop call ?s3' = Some s4" "dirty_components s4 = dirty_components ?s3'"
      "\<forall>c. watch c s4 = watch c ?s3'"
    by blast
  let ?s' = "s4\<lparr>update_scheduled := False, flushing := False, seen_callbacks := {},
                 trace := trace s4 @ [Leave_drain]\<rparr>"
  have "flush call s = Some ?s'"
    using assms(2) d s4(1) by (simp add: flush_def Let_def)
  moreover have "watch c s4 = watch c s1"
    using s4(3) s3(3) s2(3) by (simp add: watch_def)
  ultimately show ?thesis
    using s1 s2(2) s3(2) s4(2) by (auto simp: watch_def)
qed

lemma fold_mask_or:
  "fold (\<lambda>i w. if i div 31 = k then w OR push_bit (i mod 31) 1 else w) slots (a OR b) =
     a OR fold (\<lambda>i w. if i div 31 = k then w OR push_bit (i mod 31) 1 else w) slots (b :: 32 word)"
proof (induction slots arbitrary: b)
  case Nil
  show ?case by simp
next
  case (Cons i slots)
  show ?case
  proof (cases "i div 31 = k")
    case True
    have "(a OR b) OR push_bit (i mod 31) 1 = a OR (b OR push_bit (i mod 31) 1)"
      by (simp only: or.assoc)
    with True Cons.IH [of "b OR push_bit (i mod 31) 1"] show ?thesis by (simp del: push_bit_of_1)
  next
    case False
    with Cons.IH [of b] show ?thesis by simp
  qed
qed

lemma fold_mask:
  "fold (\<lambda>i w. if i div 31 = k then w OR push_bit (i mod 31) 1 else w) slots (w0 :: 32 word) =
     w0 OR union_mask slots k"
  using fold_mask_or [of k slots w0 0] by (simp add: union_mask_def)

lemma union_mask_Cons:
  "union_mask (i # slots) k =
     (if i div 31 = k then push_bit (i mod 31) 1 else 0) OR union_mask slots k"
proof -
  have "union_mask (i # slots) k =
          fold (\<lambda>i w. if i div 31 = k then w OR push_bit (i mod 31) 1 else w) slots
            (if i div 31 = k then push_bit (i mod 31) 1 else 0)"
    by (simp add: union_mask_def)
  then show ?thesis by (simp only: fold_mask)
qed

lemma dirty_word_fill_zero [simp]: "dirty_word (fill_zero d) k = 0"
  by (simp add: dirty_word_def fill_zero_def)

lemma dirty_word_or_assign:
  "dirty_word (or_assign d k b) k' = (if k' = k then dirty_word d k OR b else dirty_word d k')"
  by (auto simp: dirty_word_def or_assign_def nth_append)

lemma sentinel_not_clear: "sentinel d \<Longrightarrow> \<not> clear31 d"
  by (auto simp: sentinel_def clear31_def dirty_word_def split: list.splits option.splits)

lemma bit31_slot: "\<not> bit (2 ^ (i mod 31) :: 32 word) 31"
proof -
  have "i mod 31 < 31" by simp
  then have "31 \<noteq> i mod 31" by linarith
  then show ?thesis by (simp add: bit_exp_iff)
qed

lemma clear31_or_assign:
  "clear31 d \<Longrightarrow> clear31 (or_assign d k (2 ^ (i mod 31)))"
  by (simp add: clear31_def dirty_word_or_assign bit_or_iff bit31_slot)

lemma clear31_fill_zero [simp]: "clear31 (fill_zero d)"
  by (simp add: clear31_def)

lemma make_dirty_unmarked:
  assumes "sentinel (dirty (comps s c))"
  shows "dirty_components (make_dirty c i s) = dirty_components s @ [c]"
    and "dirty_word (dirty (comps (make_dirty c i s) c)) k =
           (if i div 31 = k then push_bit (i mod 31) 1 else 0)"
    and "clear31 (dirty (comps (make_dirty c i s) c))"
    and "fragment (comps (make_dirty c i s) c') = fragment (comps s c')"
    and "flushing (make_dirty c i s) = flushing s"
    and "trace (make_dirty c i s) = trace s"
  using assms
  by (auto simp: make_dirty_def set_comp_def schedule_update_def Let_def
      dirty_word_or_assign clear31_or_assign)

lemma make_dirty_marked:
  assumes "clear31 (dirty (comps s c))"
  shows "dirty_components (make_dirty c i s) = dirty_components s"
    and "dirty_word (dirty (comps (make_dirty c i s) c)) k =
           dirty_word (dirty (comps s c)) k OR (if i div 31 = k then push_bit (i mod 31) 1 else 0)"
    and "clear31 (dirty (comps (make_dirty c i s) c))"
    and "fragment (comps (make_dirty c i s) c') = fragment (comps s c')"
    and "flushing (make_dirty c i s) = flushing s"
    and "trace (make_dirty c i s) = trace s"
  using assms sentinel_not_clear [of "dirty (comps s c)"]
  by (auto simp: make_dirty_def set_comp_def Let_def dirty_word_or_assign clear31_or_assign)

lemma fold_make_dirty_marked:
  "clear31 (dirty (comps s c)) \<Longrightarrow>
     dirty_components (fold (make_dirty c) slots s) = dirty_components s \<and>
     (\<forall>k. dirty_word (dirty (comps (fold (make_dirty c) slots s) c)) k =
            dirty_word (dirty (comps s c)) k OR union_mask slots k) \<and>
     (\<forall>c'. fragment (comps (fold (make_dirty c) slots s) c') = fragment (comps s c')) \<and>
     flushing (fold (make_dirty c) slots s) = flushing s \<and>
     trace (fold (make_dirty c) slots s) = trace s"
proof (induction slots arbitrary: s)
  case Nil
  show ?case by (simp add: union_mask_def)
next
  case (Cons i slots)
  note m = make_dirty_marked [OF Cons.prems, of i]
  from Cons.IH [OF m(3)] show ?case
    by (simp add: m union_mask_Cons or.assoc)
qed

lemma fold_make_dirty_unmarked:
  assumes "sentinel (dirty (comps s c))" "slots \<noteq> []"
  shows "dirty_components (fold (make_dirty c) slots s) = dirty_components s @ [c]"
    and "dirty_word (dirty (comps (fold (make_dirty c) slots s) c)) k = union_mask slots k"
    and "fragment (comps (fold (make_dirty c) slots s) c') = fragment (comps s c')"
    and "flushing (fold (make_dirty c) slots s) = flushing s"
    and "trace (fold (make_dirty c) slots s) = trace s"
proof -
  from assms(2) obtain i rest where slots: "slots = i # rest" by (cases slots) auto
  note m = make_dirty_unmarked [OF assms(1), of i]
  from fold_make_dirty_marked [OF m(3), of rest]
  show "dirty_components (fold (make_dirty c) slots s) = dirty_components s @ [c]"
    and "dirty_word (dirty (comps (fold (make_dirty c) slots s) c)) k = union_mask slots k"
    and "fragment (comps (fold (make_dirty c) slots s) c') = fragment (comps s c')"
    and "flushing (fold (make_dirty c) slots s) = flushing s"
    and "trace (fold (make_dirty c) slots s) = trace s"
    by (simp_all add: slots m union_mask_Cons)
qed

section \<open>Coalescing\<close>

text \<open>
  C1. Take a component \<open>c\<close> that has a fragment and is not dirty (its dirty array is
  the sentinel, and it is not in the queue of dirty components), with no flush in
  progress. Mark any slots \<open>slots\<close> (at least one) dirty with \<open>make_dirty\<close>, one after
  the other. If the callees do no further dirtying (\<open>settled\<close>), the flush that follows
  returns, it calls the component's \<^verbatim>\<open>$$.update\<close> exactly once and the \<^verbatim>\<open>p\<close> of its
  fragment exactly once, and the dirty array it passes to \<^verbatim>\<open>p\<close> is, word by word, the
  bitwise union of the bits of the marked slots.
\<close>

theorem coalescing:
  assumes "settled call" and "\<not> flushing s" and "sentinel (dirty (comps s c))"
    and "c \<notin> set (dirty_components s)" and "fragment (comps s c) = Frag b"
    and "slots \<noteq> []"
  shows "\<exists>s' d. flush call (fold (make_dirty c) slots s) = Some s' \<and>
           updates c (trace s') = updates c (trace s) + 1 \<and>
           patches c (trace s') = patches c (trace s) @ [d] \<and>
           (\<forall>k. dirty_word d k = union_mask slots k)"
proof -
  let ?s1 = "fold (make_dirty c) slots s"
  note m = fold_make_dirty_unmarked [OF assms(3,6)]
  have "\<not> flushing ?s1" using m(4) assms(2) by simp
  moreover have "fragment (comps ?s1 c) = Frag b" using m(3) assms(5) by simp
  ultimately obtain s' where
    "flush call ?s1 = Some s'"
    "updates c (trace s') = updates c (trace ?s1) + 1"
    "patches c (trace s') = patches c (trace ?s1) @ [dirty (comps ?s1 c)]"
    using flush_settled [OF assms(1) _ m(1) assms(4)] by blast
  then show ?thesis using m(2,5) by auto
qed

theorem coalescing_witness:
  "settled quiet \<and> \<not> flushing ex_clean \<and> sentinel (dirty (comps ex_clean 0)) \<and>
   0 \<notin> set (dirty_components ex_clean) \<and> fragment (comps ex_clean 0) = Frag 0 \<and>
   [0, 3, 40] \<noteq> ([] :: nat list) \<and>
   (\<exists>s' d. flush quiet (fold (make_dirty 0) [0, 3, 40] ex_clean) = Some s' \<and>
      updates 0 (trace s') = updates 0 (trace ex_clean) + 1 \<and>
      patches 0 (trace s') = patches 0 (trace ex_clean) @ [d] \<and>
      (\<forall>k. dirty_word d k = union_mask [0, 3, 40] k))"
proof -
  have h: "settled quiet" "\<not> flushing ex_clean" "sentinel (dirty (comps ex_clean 0))"
    "0 \<notin> set (dirty_components ex_clean)" "fragment (comps ex_clean 0) = Frag 0"
    "[0, 3, 40] \<noteq> ([] :: nat list)"
    by (simp_all add: settled_def quiet_def ex_clean_def start_def new_component_def
        set_comp_def sentinel_def)
  from coalescing [OF h] h show ?thesis by blast
qed

text \<open>
  The same example computed: slots 0 and 3 are bits 0 and 3 of word 0, slot 40 is bit 9
  of word 1, one microtask is scheduled, and there is one update and one patch.
\<close>

lemma coalescing_example:
  "map_option (\<lambda>s. (updates 0 (trace s), patches 0 (trace s)))
     (flush quiet (fold (make_dirty 0) [0, 3, 40] ex_clean)) = Some (1, [[Some 9, Some 512]])"
  "microtasks (fold (make_dirty 0) [0, 3, 40] ex_clean) = 1"
  by (simp_all add: ex_clean_def eval_defs)

section \<open>The invalidate closure\<close>

text \<open>
  C7, as the code has it. When the closure detects a change of slot \<open>i\<close> (the context
  exists and \<open>not_equal\<close> of the old and the new value is truthy), then, with \<open>s1\<close> the
  state after the new value has been stored:
  (a) if \<open>skip_bound\<close> is not set and a binding callback is registered for the slot, that
  callback is called at once with the new value; if \<open>skip_bound\<close> is set (as it is while
  \<^verbatim>\<open>$set\<close> runs) or no callback is registered, no callback is called;
  (b) after that, \<open>make_dirty\<close> marks the slot exactly if \<open>ready\<close> is set; before
  readiness the dirty array and the queue of dirty components stay as they are.
\<close>

theorem invalidate_on_change:
  assumes "ctx (comps s c) = Some xs"
    and "v = (if rest \<noteq> [] then hd rest else ret)"
    and "truthy (not_equal (comps s c) (js_load xs i) v)"
    and "s1 = set_comp c (\<lambda>k. k\<lparr>ctx := Some (js_store xs i v)\<rparr>) s"
  shows "(\<not> skip_bound (comps s c) \<and> bound (comps s c) i = Some f \<longrightarrow>
            invalidate call c i ret rest s =
              Option.bind (invoke call (At_bound c i) (Fn f [v]) s1)
                (\<lambda>s2. Some (if ready (comps s2 c) then make_dirty c i s2 else s2))) \<and>
         (skip_bound (comps s c) \<or> bound (comps s c) i = None \<longrightarrow>
            invalidate call c i ret rest s =
              Some (if ready (comps s c) then make_dirty c i s1 else s1)) \<and>
         (\<not> ready (comps s c) \<and> (skip_bound (comps s c) \<or> bound (comps s c) i = None) \<longrightarrow>
            invalidate call c i ret rest s = Some s1 \<and>
            dirty (comps s1 c) = dirty (comps s c) \<and> dirty_components s1 = dirty_components s)"
  using assms
  by (auto simp: invalidate_def set_comp_def Let_def split: option.splits)

theorem invalidate_on_change_witness:
  "ctx (comps ex_bound 0) = Some [Number (Fin 1)] \<and>
   truthy (not_equal (comps ex_bound 0) (js_load [Number (Fin 1)] 0) (Number (Fin 2))) \<and>
   \<not> skip_bound (comps ex_bound 0) \<and> bound (comps ex_bound 0) 0 = Some (User 1) \<and>
   map_option (\<lambda>s. (trace s, dirty_components s)) (invalidate quiet 0 0 (Number (Fin 2)) [] ex_bound) =
     Some ([Called (At_bound 0 0) (Fn (User 1) [Number (Fin 2)])], [0])"
  using invalidate_on_change
    [of ex_bound 0 "[Number (Fin 1)]" "Number (Fin 2)" "[]" "Number (Fin 2)" 0
        "set_comp 0 (\<lambda>k. k\<lparr>ctx := Some (js_store [Number (Fin 1)] 0 (Number (Fin 2)))\<rparr>) ex_bound"
        "User 1" quiet]
  by (simp add: ex_bound_def eval_defs)

text \<open>
  The claim as stated (the binding callback is invoked whenever one is registered) fails
  under \<^verbatim>\<open>$set\<close>: the slot changes from 1 to 2 and is marked dirty, a callback is bound
  to it, and the only call the runtime makes is the one of \<^verbatim>\<open>$$set\<close>.
\<close>

theorem invalidate_bound_counterexample:
  "bound (comps ex_bound 0) 0 = Some (User 1) \<and>
   truthy (not_equal (comps ex_bound 0) (Number (Fin 1)) (Number (Fin 2))) \<and>
   map_option (\<lambda>s. (trace s, ctx (comps s 0), dirty_components s))
     (dollar_set (run (Suc (Suc 0)) setter) 0 [(''x'', Number (Fin 2))] ex_bound) =
     Some ([Called (At_set 0) (Dollar_dollar_set 0 [(''x'', Number (Fin 2))])],
           Some [Number (Fin 2)], [0])"
  by (simp add: ex_bound_def setter_def dollar_set_def eval_defs)

section \<open>Destroying a component\<close>

lemma destroys_append [simp]: "destroys c (xs @ ys) = destroys c xs @ destroys c ys"
  by (induction xs) (simp_all add: destroys_def map_filter_simps split: option.splits)

lemma destroys_single [simp]:
  "destroys c [Called (At_on_destroy c) (Fn f args)] = [f]"
  "site \<noteq> At_on_destroy c \<Longrightarrow> destroys c [Called site g] = []"
  by (simp_all add: destroys_def destroy_of_def map_filter_simps split: callee.splits)

lemma run_all_lifecycle:
  assumes "keeps_lifecycle c call"
  shows "\<exists>s'. run_all call (At_on_destroy c) fs s = Some s' \<and>
           fragment (comps s' c) = fragment (comps s c) \<and>
           on_destroy (comps s' c) = on_destroy (comps s c) \<and>
           destroy_noop (comps s' c) = destroy_noop (comps s c) \<and>
           destroys c (trace s') = destroys c (trace s) @ fs"
proof (induction fs arbitrary: s)
  case Nil
  show ?case by simp
next
  case (Cons f fs)
  let ?s0 = "s\<lparr>trace := trace s @ [Called (At_on_destroy c) (Fn f [])]\<rparr>"
  from assms obtain r s1 where s1: "call (Fn f []) ?s0 = Some (r, s1)" "lifecycle c s1 = lifecycle c ?s0"
    unfolding keeps_lifecycle_def by blast
  from Cons.IH [of s1] obtain s' where
    "run_all call (At_on_destroy c) fs s1 = Some s'"
    "fragment (comps s' c) = fragment (comps s1 c)"
    "on_destroy (comps s' c) = on_destroy (comps s1 c)"
    "destroy_noop (comps s' c) = destroy_noop (comps s1 c)"
    "destroys c (trace s') = destroys c (trace s1) @ fs"
    by blast
  with s1 show ?case
    by (auto simp: invoke_def invoke_result_def lifecycle_def)
qed

lemma destroy_component_again:
  "destroy_component call c d s = Some s1 \<Longrightarrow> fragment (comps s c) \<noteq> Frag_null \<Longrightarrow>
     fragment (comps s1 c) = Frag_null \<and> on_destroy (comps s1 c) = None \<and>
     destroy_component call' c d' s1 = Some s1"
  by (auto simp: destroy_component_def set_comp_def bind_eq_Some_conv split: option.splits)

lemma destroy_component_lifecycle:
  assumes "keeps_lifecycle c call" "fragment (comps s c) \<noteq> Frag_null" "on_destroy (comps s c) = Some a"
  shows "\<exists>s1. destroy_component call c d s = Some s1 \<and>
           destroys c (trace s1) = destroys c (trace s) @ arrays s a \<and>
           destroy_noop (comps s1 c) = destroy_noop (comps s c)"
proof -
  from run_all_lifecycle [OF assms(1), of "arrays s a" s] obtain s1 where
    s1: "run_all call (At_on_destroy c) (arrays s a) s = Some s1"
      "fragment (comps s1 c) = fragment (comps s c)"
      "destroy_noop (comps s1 c) = destroy_noop (comps s c)"
      "destroys c (trace s1) = destroys c (trace s) @ arrays s a"
    by blast
  have "\<exists>s2. (case fragment (comps s1 c) of
                Frag b \<Rightarrow> invoke call (At_destroy_fragment c) (Hook b (H_d d)) s1
              | _ \<Rightarrow> Some s1) = Some s2 \<and>
              destroy_noop (comps s2 c) = destroy_noop (comps s1 c) \<and>
              destroys c (trace s2) = destroys c (trace s1)"
  proof (cases "fragment (comps s1 c)")
    case (Frag b)
    let ?s0 = "s1\<lparr>trace := trace s1 @ [Called (At_destroy_fragment c) (Hook b (H_d d))]\<rparr>"
    from assms(1) obtain r s2 where "call (Hook b (H_d d)) ?s0 = Some (r, s2)"
      "lifecycle c s2 = lifecycle c ?s0"
      unfolding keeps_lifecycle_def by blast
    with Frag show ?thesis by (auto simp: invoke_def invoke_result_def lifecycle_def)
  qed simp_all
  then obtain s2 where s2: "(case fragment (comps s1 c) of
                Frag b \<Rightarrow> invoke call (At_destroy_fragment c) (Hook b (H_d d)) s1
              | _ \<Rightarrow> Some s1) = Some s2"
      "destroy_noop (comps s2 c) = destroy_noop (comps s1 c)"
      "destroys c (trace s2) = destroys c (trace s1)"
    by blast
  with s1 assms(2,3) show ?thesis
    by (simp add: destroy_component_def set_comp_def)
qed

text \<open>
  C9. Take a component that has not been destroyed (its fragment is not \<^verbatim>\<open>null\<close>, its
  \<open>on_destroy\<close> is an array, its \<^verbatim>\<open>$destroy\<close> is the original method) and callees that
  leave its teardown alone. Then \<open>destroy_component\<close> returns, it has called exactly the
  functions of the \<open>on_destroy\<close> array, each once and in order, and it has set the
  fragment and the \<open>on_destroy\<close> reference to \<^verbatim>\<open>null\<close>; a second \<open>destroy_component\<close>
  returns the state it finds, so it does not throw and calls nothing. The same holds for
  \<^verbatim>\<open>$destroy\<close> followed by a second \<^verbatim>\<open>$destroy\<close> or by \<open>destroy_component\<close>.
\<close>

theorem double_destroy:
  assumes "keeps_lifecycle c call" and "fragment (comps s c) \<noteq> Frag_null"
    and "on_destroy (comps s c) = Some a" and "\<not> destroy_noop (comps s c)"
  shows "(\<exists>s1. destroy_component call c d s = Some s1 \<and>
            destroys c (trace s1) = destroys c (trace s) @ arrays s a \<and>
            fragment (comps s1 c) = Frag_null \<and> on_destroy (comps s1 c) = None \<and>
            destroy_component call c d' s1 = Some s1) \<and>
         (\<exists>s1. dollar_destroy call c s = Some s1 \<and>
            destroys c (trace s1) = destroys c (trace s) @ arrays s a \<and>
            dollar_destroy call c s1 = Some s1 \<and>
            destroy_component call c d' s1 = Some s1)"
proof -
  from destroy_component_lifecycle [OF assms(1,2,3)] obtain s1 where
    s1: "destroy_component call c (Number (Fin 1)) s = Some s1"
      "destroys c (trace s1) = destroys c (trace s) @ arrays s a"
    by blast
  note again = destroy_component_again [OF s1(1) assms(2), of call d']
  let ?s2 = "set_comp c (\<lambda>k. k\<lparr>destroy_noop := True\<rparr>) s1"
  have "dollar_destroy call c s = Some ?s2"
    using assms(4) s1(1) by (simp add: dollar_destroy_def)
  moreover have "dollar_destroy call c ?s2 = Some ?s2"
    by (simp add: dollar_destroy_def set_comp_def)
  moreover have "destroy_component call c d' ?s2 = Some ?s2"
    using again by (simp add: destroy_component_def set_comp_def)
  moreover have "destroys c (trace ?s2) = destroys c (trace s) @ arrays s a"
    using s1(2) by (simp add: set_comp_def)
  ultimately have second: "\<exists>s1. dollar_destroy call c s = Some s1 \<and>
            destroys c (trace s1) = destroys c (trace s) @ arrays s a \<and>
            dollar_destroy call c s1 = Some s1 \<and>
            destroy_component call c d' s1 = Some s1"
    by blast
  from destroy_component_lifecycle [OF assms(1,2,3), of d] obtain t1 where
    t1: "destroy_component call c d s = Some t1"
      "destroys c (trace t1) = destroys c (trace s) @ arrays s a"
    by blast
  from destroy_component_again [OF t1(1) assms(2), of call d'] t1 second
  show ?thesis by blast
qed

theorem double_destroy_witness:
  "keeps_lifecycle 0 quiet \<and> fragment (comps (ex_on_mount\<lparr>arrays := (\<lambda>_. [])(1 := [User 7, User 8])\<rparr>) 0) \<noteq> Frag_null \<and>
   on_destroy (comps (ex_on_mount\<lparr>arrays := (\<lambda>_. [])(1 := [User 7, User 8])\<rparr>) 0) = Some 1 \<and>
   \<not> destroy_noop (comps (ex_on_mount\<lparr>arrays := (\<lambda>_. [])(1 := [User 7, User 8])\<rparr>) 0) \<and>
   (\<exists>s1. dollar_destroy quiet 0 (ex_on_mount\<lparr>arrays := (\<lambda>_. [])(1 := [User 7, User 8])\<rparr>) = Some s1 \<and>
      destroys 0 (trace s1) = [User 7, User 8] \<and>
      dollar_destroy quiet 0 s1 = Some s1 \<and>
      destroy_component quiet 0 Undefined s1 = Some s1)"
proof -
  let ?s = "ex_on_mount\<lparr>arrays := (\<lambda>_. [])(1 := [User 7, User 8])\<rparr>"
  have h: "keeps_lifecycle 0 quiet" "fragment (comps ?s 0) \<noteq> Frag_null"
    "on_destroy (comps ?s 0) = Some 1" "\<not> destroy_noop (comps ?s 0)"
    by (simp_all add: keeps_lifecycle_def quiet_def ex_on_mount_def start_def new_component_def
        set_comp_def)
  have "destroys 0 (trace ?s) = []" "arrays ?s 1 = [User 7, User 8]"
    by (simp_all add: ex_on_mount_def eval_defs)
  with double_destroy [OF h, of Undefined Undefined] h show ?thesis by simp
qed

section \<open>Transition groups\<close>

lemma perform_all_append:
  "perform_all call (as @ bs) s = Option.bind (perform_all call as s) (perform_all call bs)"
proof (induction as arbitrary: s)
  case Nil
  show ?case by simp
next
  case (Cons a as)
  show ?case by (cases "perform call a s") (simp_all add: Cons.IH)
qed

lemma transition_outs:
  "outros t = g # p \<Longrightarrow> distinct (map fst reqs) \<Longrightarrow>
   \<forall>r\<in>set reqs. outro_hook t (fst r) \<and> fst r \<notin> outroing t \<Longrightarrow>
   perform_all (run (Suc m) idle) (map outro_action reqs) t =
     Some (t\<lparr>outroing := outroing t \<union> fst ` set reqs,
             outros := g\<lparr>group_c := group_c g @
                         map (\<lambda>(i, r). outro_closure i r) (enumerate (next_closure t) reqs)\<rparr> # p,
             next_closure := next_closure t + length reqs,
             trace := trace t @ map outro_started reqs\<rparr>)"
proof (induction reqs arbitrary: t g)
  case Nil
  then show ?case by simp
next
  case (Cons r reqs)
  obtain b l d k where r: "r = (b, l, d, k)" by (cases r) auto
  define t' where "t' = t\<lparr>outroing := insert b (outroing t),
      outros := g\<lparr>group_c := group_c g @ [outro_closure (next_closure t) r]\<rparr> # p,
      next_closure := next_closure t + 1,
      trace := trace t @ [outro_started r]\<rparr>"
  have step: "perform (run (Suc m) idle) (outro_action r) t = Some t'"
    using Cons.prems
    by (simp add: r outro_action_def transition_out_def invoke_def invoke_result_def run_idle
        t'_def outro_closure_def outro_started_def)
  have "perform_all (run (Suc m) idle) (map outro_action reqs) t' =
     Some (t'\<lparr>outroing := outroing t' \<union> fst ` set reqs,
             outros := (g\<lparr>group_c := group_c g @ [outro_closure (next_closure t) r]\<rparr>)
                        \<lparr>group_c := group_c (g\<lparr>group_c := group_c g @ [outro_closure (next_closure t) r]\<rparr>) @
                         map (\<lambda>(i, r). outro_closure i r) (enumerate (next_closure t') reqs)\<rparr> # p,
             next_closure := next_closure t' + length reqs,
             trace := trace t' @ map outro_started reqs\<rparr>)"
    using Cons.prems by (intro Cons.IH) (auto simp: t'_def r)
  then show ?case using step by (simp add: t'_def r)
qed

lemma completions:
  "run_all (run (Suc (Suc m)) idle) At_outros
     (map (\<lambda>(i, r). outro_closure i r) (enumerate n reqs)) t =
   Some (t\<lparr>outroing := outroing t - fst ` set reqs,
           trace := trace t @ concat (map (\<lambda>(i, r). outro_completed i r) (enumerate n reqs))\<rparr>)"
proof (induction reqs arbitrary: n t)
  case Nil
  show ?case by simp
next
  case (Cons r reqs)
  obtain b l d k where r: "r = (b, l, d, k)" by (cases r) auto
  have step: "invoke (run (Suc (Suc m)) idle) At_outros (Fn (outro_closure n r) []) t =
      Some (t\<lparr>outroing := outroing t - {b}, trace := trace t @ outro_completed n r\<rparr>)"
    by (cases k) (simp_all add: r outro_closure_def outro_completed_def invoke_def invoke_result_def
        run_Suc(4) outro_done_def run_idle Let_def)
  have "fst ` set (r # reqs) = insert b (fst ` set reqs)" by (simp add: r)
  moreover have "outroing t - {b} - fst ` set reqs = outroing t - insert b (fst ` set reqs)" by auto
  ultimately show ?case by (simp add: step Cons.IH)
qed

lemma outros_resolved:
  assumes "distinct (map fst reqs)" "\<forall>r\<in>set reqs. outro_hook s (fst r) \<and> fst r \<notin> outroing s"
  shows "perform_all (run (Suc (Suc n)) idle)
           (Do_group_outros # map outro_action reqs @ [Do_check_outros]) s =
         Some (s\<lparr>next_closure := next_closure s + length reqs,
                 trace := trace s @ map outro_started reqs @
                   concat (map (\<lambda>(i, r). outro_completed i r) (enumerate (next_closure s) reqs))\<rparr>)"
proof -
  define g where "g = \<lparr>group_r = 0, group_c = []\<rparr>"
  define t where "t = group_outros s"
  have t: "outros t = g # outros s" "outroing t = outroing s" "outro_hook t = outro_hook s"
    "next_closure t = next_closure s" "trace t = trace s"
    by (simp_all add: t_def g_def group_outros_def)
  define cs where "cs = map (\<lambda>(i, r). outro_closure i r) (enumerate (next_closure s) reqs)"
  define t1 where "t1 = t\<lparr>outroing := outroing t \<union> fst ` set reqs,
             outros := g\<lparr>group_c := group_c g @ cs\<rparr> # outros s,
             next_closure := next_closure t + length reqs,
             trace := trace t @ map outro_started reqs\<rparr>"
  have 1: "perform_all (run (Suc (Suc n)) idle) (map outro_action reqs) t = Some t1"
    unfolding t1_def cs_def t(4) [symmetric]
    by (rule transition_outs [OF t(1) assms(1)]) (simp add: t assms(2))
  have 2: "run_all (run (Suc (Suc n)) idle) At_outros cs t1 =
      Some (t1\<lparr>outroing := outroing t1 - fst ` set reqs,
           trace := trace t1 @ concat (map (\<lambda>(i, r). outro_completed i r) (enumerate (next_closure s) reqs))\<rparr>)"
    unfolding cs_def by (rule completions)
  have 3: "outroing s \<union> fst ` set reqs - fst ` set reqs = outroing s"
    using assms(2) by auto
  have "check_outros (run (Suc (Suc n)) idle) t1 =
      Some (s\<lparr>next_closure := next_closure s + length reqs,
                 trace := trace s @ map outro_started reqs @
                   concat (map (\<lambda>(i, r). outro_completed i r) (enumerate (next_closure s) reqs))\<rparr>)"
    using 2 by (simp add: check_outros_def t1_def g_def t 3 t_def group_outros_def)
  with 1 show ?thesis by (simp add: perform_all_append t_def)
qed

text \<open>
  C5, as the code has it. \<open>transition_out\<close> on a falsy block or on a block without an
  \<^verbatim>\<open>o\<close> method returns the state it finds; so it does on a block that is in the
  \<open>outroing\<close> set, and no second completion is registered. Otherwise it adds the block
  to the \<open>outroing\<close> set, appends a new completion closure to the callbacks of the
  current group, leaves the group's remaining count \<open>r\<close> as it is, and calls the
  block's \<^verbatim>\<open>o\<close>. The completion closure un-marks the block (removes it from the
  \<open>outroing\<close> set), optionally detaches (it calls the block's \<^verbatim>\<open>d(1)\<close> when \<open>detach\<close> is
  set, which the code does under the test for the callback) and invokes the callback.
  \<open>check_outros\<close> on a group whose count is zero runs every closure registered with the
  group, in order, and then makes the parent the current group, whatever the calls mean.
  So after \<open>group_outros\<close> and any number of \<open>transition_out\<close> calls on different blocks,
  not in the \<open>outroing\<close> set, whose \<^verbatim>\<open>o\<close> methods return at once, \<open>check_outros\<close> returns,
  having called every completion closure exactly once, hence every callback once, and
  leaves \<open>outros\<close> and the \<open>outroing\<close> set as they were before \<open>group_outros\<close>: the
  current group is the parent again.
\<close>

theorem transition_out_spec:
  "transition_out call None l d cb s = Some s \<and>
   (\<not> outro_hook s b \<longrightarrow> transition_out call (Some b) l d cb s = Some s) \<and>
   (outro_hook s b \<and> b \<in> outroing s \<longrightarrow> transition_out call (Some b) l d cb s = Some s) \<and>
   (outro_hook s b \<and> b \<notin> outroing s \<and> outros s = g # p \<longrightarrow>
      transition_out call (Some b) l d cb s =
        invoke call At_outro (Hook b (H_o l))
          (s\<lparr>outroing := insert b (outroing s),
             outros := g\<lparr>group_c := group_c g @ [Outro_done (next_closure s) b d cb]\<rparr> # p,
             next_closure := next_closure s + 1\<rparr>)) \<and>
   outro_done call b d None s = Some (s\<lparr>outroing := outroing s - {b}\<rparr>) \<and>
   outro_done call b d (Some f) s =
     Option.bind (if d then invoke call At_outro_detach (Hook b (H_d (Number (Fin 1))))
                              (s\<lparr>outroing := outroing s - {b}\<rparr>)
                  else Some (s\<lparr>outroing := outroing s - {b}\<rparr>))
       (invoke call At_outro_callback (Fn f [])) \<and>
   (outros s = g # p \<and> group_r g = 0 \<longrightarrow>
      check_outros call s =
        Option.bind (run_all call At_outros (group_c g) s)
          (\<lambda>s'. case outros s' of [] \<Rightarrow> None | _ # p' \<Rightarrow> Some (s'\<lparr>outros := p'\<rparr>))) \<and>
   (distinct (map fst reqs) \<and> (\<forall>r\<in>set reqs. outro_hook s (fst r) \<and> fst r \<notin> outroing s) \<longrightarrow>
      perform_all (run (Suc (Suc n)) idle)
        (Do_group_outros # map outro_action reqs @ [Do_check_outros]) s =
      Some (s\<lparr>next_closure := next_closure s + length reqs,
              trace := trace s @ map outro_started reqs @
                concat (map (\<lambda>(i, r). outro_completed i r) (enumerate (next_closure s) reqs))\<rparr>))"
proof -
  have "transition_out call None l d cb s = Some s \<and>
   (\<not> outro_hook s b \<longrightarrow> transition_out call (Some b) l d cb s = Some s) \<and>
   (outro_hook s b \<and> b \<in> outroing s \<longrightarrow> transition_out call (Some b) l d cb s = Some s) \<and>
   (outro_hook s b \<and> b \<notin> outroing s \<and> outros s = g # p \<longrightarrow>
      transition_out call (Some b) l d cb s =
        invoke call At_outro (Hook b (H_o l))
          (s\<lparr>outroing := insert b (outroing s),
             outros := g\<lparr>group_c := group_c g @ [Outro_done (next_closure s) b d cb]\<rparr> # p,
             next_closure := next_closure s + 1\<rparr>)) \<and>
   outro_done call b d None s = Some (s\<lparr>outroing := outroing s - {b}\<rparr>) \<and>
   outro_done call b d (Some f) s =
     Option.bind (if d then invoke call At_outro_detach (Hook b (H_d (Number (Fin 1))))
                              (s\<lparr>outroing := outroing s - {b}\<rparr>)
                  else Some (s\<lparr>outroing := outroing s - {b}\<rparr>))
       (invoke call At_outro_callback (Fn f []))"
    by (auto simp: transition_out_def outro_done_def Let_def)
  moreover have "outros s = g # p \<and> group_r g = 0 \<longrightarrow>
      check_outros call s =
        Option.bind (run_all call At_outros (group_c g) s)
          (\<lambda>s'. case outros s' of [] \<Rightarrow> None | _ # p' \<Rightarrow> Some (s'\<lparr>outros := p'\<rparr>))"
    by (simp add: check_outros_def)
  ultimately show ?thesis using outros_resolved [of reqs s n] by blast
qed

text \<open>
  A block without \<^verbatim>\<open>o\<close>, and a group of three requests: two with a callback, one of
  them detaching, and one without a callback.
\<close>

theorem transition_out_spec_witness:
  "\<not> outro_hook (start\<lparr>outro_hook := (\<lambda>b. b \<noteq> 9)\<rparr>) 9 \<and>
   transition_out quiet (Some 9) Undefined True None (start\<lparr>outro_hook := (\<lambda>b. b \<noteq> 9)\<rparr>) =
     Some (start\<lparr>outro_hook := (\<lambda>b. b \<noteq> 9)\<rparr>) \<and>
   distinct (map fst [(1, Undefined, True, Some 3), (2, Undefined, False, Some 4),
                      (5 :: nat, Undefined, True, None :: nat option)]) \<and>
   outro_hook (start\<lparr>outro_hook := (\<lambda>b. b \<noteq> 9)\<rparr>) 1 \<and>
   outro_hook (start\<lparr>outro_hook := (\<lambda>b. b \<noteq> 9)\<rparr>) 2 \<and>
   outro_hook (start\<lparr>outro_hook := (\<lambda>b. b \<noteq> 9)\<rparr>) 5 \<and>
   1 \<notin> outroing (start\<lparr>outro_hook := (\<lambda>b. b \<noteq> 9)\<rparr>) \<and>
   2 \<notin> outroing (start\<lparr>outro_hook := (\<lambda>b. b \<noteq> 9)\<rparr>) \<and>
   5 \<notin> outroing (start\<lparr>outro_hook := (\<lambda>b. b \<noteq> 9)\<rparr>) \<and>
   map_option (\<lambda>s. (outros s, outroing s, trace s))
     (perform_all (run (Suc (Suc 0)) idle)
        (Do_group_outros #
         map outro_action [(1, Undefined, True, Some 3), (2, Undefined, False, Some 4),
                           (5, Undefined, True, None)] @
         [Do_check_outros])
        (start\<lparr>outro_hook := (\<lambda>b. b \<noteq> 9)\<rparr>)) =
     Some ([], {},
           [Called At_outro (Hook 1 (H_o Undefined)), Called At_outro (Hook 2 (H_o Undefined)),
            Called At_outro (Hook 5 (H_o Undefined)),
            Called At_outros (Fn (Outro_done 0 1 True (Some (User 3))) []),
            Called At_outro_detach (Hook 1 (H_d (Number (Fin 1)))),
            Called At_outro_callback (Fn (User 3) []),
            Called At_outros (Fn (Outro_done 1 2 False (Some (User 4))) []),
            Called At_outro_callback (Fn (User 4) []),
            Called At_outros (Fn (Outro_done 2 5 True None) [])])"
proof -
  let ?s = "start\<lparr>outro_hook := (\<lambda>b. b \<noteq> 9)\<rparr>"
  let ?reqs = "[(1, Undefined, True, Some 3), (2, Undefined, False, Some 4),
                (5 :: nat, Undefined, True, None :: nat option)]"
  note t = transition_out_spec [of quiet Undefined True None ?s 9 _ _ _ ?reqs 0]
  have h: "\<not> outro_hook ?s 9" "distinct (map fst ?reqs)"
    "\<forall>r\<in>set ?reqs. outro_hook ?s (fst r) \<and> fst r \<notin> outroing ?s"
    by (simp_all add: start_def)
  from t [THEN conjunct2, THEN conjunct1] h(1)
  have a: "transition_out quiet (Some 9) Undefined True None ?s = Some ?s"
    by simp
  from t [THEN conjunct2, THEN conjunct2, THEN conjunct2, THEN conjunct2, THEN conjunct2,
      THEN conjunct2, THEN conjunct2] h(2,3) have
    "perform_all (run (Suc (Suc 0)) idle)
        (Do_group_outros # map outro_action ?reqs @ [Do_check_outros]) ?s =
      Some (?s\<lparr>next_closure := next_closure ?s + length ?reqs,
              trace := trace ?s @ map outro_started ?reqs @
                concat (map (\<lambda>(i, r). outro_completed i r) (enumerate (next_closure ?s) ?reqs))\<rparr>)"
    by blast
  then show ?thesis using a h
    by (simp add: start_def outro_started_def outro_completed_def)
qed

text \<open>
  The claim as stated (it increments the current group's remaining count) fails: after
  \<open>group_outros\<close> and a \<open>transition_out\<close> that registers a completion, the count of the
  current group is still 0. In this bundle nothing but \<open>group_outros\<close> writes \<open>r\<close>.
\<close>

theorem transition_out_count_counterexample:
  "map_option (\<lambda>s. map (\<lambda>g. (group_r g, length (group_c g))) (outros s))
     (transition_out quiet (Some 1) Undefined True (Some (User 3)) (group_outros start)) =
     Some [(0, 1)]"
  by (simp add: transition_out_def group_outros_def start_def eval_defs)

section \<open>Cleanup functions of a component destroyed before its mount callback runs\<close>

text \<open>
  C10. The render callback of \<open>mount_component\<close> tests the \<open>on_destroy\<close> array that was
  read when \<open>mount_component\<close> was called, not the field of the component. First
  statement: the component is mounted, then destroyed, then the flush runs the mount
  callback. The \<open>on_mount\<close> function \<open>User 1\<close> is called and returns the cleanup function
  \<open>User 2\<close>; the callback finds the old array, pushes \<open>User 2\<close> onto it and does not call
  it, while the component's \<open>on_destroy\<close> is \<^verbatim>\<open>null\<close>: the cleanup function is lost.
  Second statement: only when the component was destroyed before \<open>mount_component\<close> was
  called does the callback run the cleanup function at once. In both, \<open>on_mount\<close> is a
  new empty array afterwards.
\<close>

theorem mount_callback_stale_on_destroy:
  "map_option (\<lambda>s. (trace s, on_destroy (comps s 0), arrays s 1, arrays s (on_mount (comps s 0))))
     (Option.bind (mount_component (run (Suc (Suc 0)) with_cleanup) 0 Undefined Undefined False ex_on_mount)
        (\<lambda>s. Option.bind (destroy_component (run (Suc (Suc 0)) with_cleanup) 0 (Number (Fin 1)) s)
          (flush (run (Suc (Suc 0)) with_cleanup)))) =
     Some ([Called (At_mount_fragment 0) (Hook 0 (H_m Undefined Undefined)),
            Called (At_destroy_fragment 0) (Hook 0 (H_d (Number (Fin 1)))),
            Enter_drain,
            Called At_render (Fn (Mount_callback 0 0 0 (Some 1)) []),
            Called (At_on_mount 0) (Fn (User 1) []),
            Leave_drain],
           None, [User 2], []) \<and>
   map_option (\<lambda>s. (trace s, on_destroy (comps s 0), arrays s 1, arrays s (on_mount (comps s 0))))
     (Option.bind (destroy_component (run (Suc (Suc 0)) with_cleanup) 0 (Number (Fin 1)) ex_on_mount)
        (\<lambda>s. Option.bind (mount_component (run (Suc (Suc 0)) with_cleanup) 0 Undefined Undefined False s)
          (flush (run (Suc (Suc 0)) with_cleanup)))) =
     Some ([Called (At_destroy_fragment 0) (Hook 0 (H_d (Number (Fin 1)))),
            Enter_drain,
            Called At_render (Fn (Mount_callback 0 0 0 None) []),
            Called (At_on_mount 0) (Fn (User 1) []),
            Called (At_cleanup 0) (Fn (User 2) []),
            Leave_drain],
           None, [], [])"
  by (simp add: ex_on_mount_def with_cleanup_def mount_component_def destroy_component_def
      mount_callback_def eval_defs)

section \<open>The hydration reconciler orders the children with the fewest moves\<close>

subsection \<open>The first loop: the longest increasing subsequence\<close>

lemma upper_bound_spec:
  assumes "\<forall>a b. low \<le> a \<and> a \<le> b \<and> b < high \<longrightarrow> key a \<le> key b" and "low \<le> high"
  shows "low \<le> upper_bound low high key v \<and> upper_bound low high key v \<le> high \<and>
         (\<forall>a. low \<le> a \<and> a < upper_bound low high key v \<longrightarrow> key a \<le> v) \<and>
         (\<forall>a. upper_bound low high key v \<le> a \<and> a < high \<longrightarrow> v < key a)"
  using assms
proof (induction low high key v rule: upper_bound.induct)
  case (1 low high key v)
  show ?case
  proof (cases "low < high")
    case False
    then have "upper_bound low high key v = low"
      by (simp add: upper_bound.simps [of low high])
    with False "1.prems"(2) show ?thesis by auto
  next
    case True
    define mid where "mid = low + (high - low) div 2"
    have mid: "low \<le> mid" "mid < high" using True by (simp_all add: mid_def)
    show ?thesis
    proof (cases "key mid \<le> v")
      case le: True
      have eq: "upper_bound low high key v = upper_bound (mid + 1) high key v"
        using True le by (simp add: upper_bound.simps [of low high] mid_def Let_def)
      have "\<forall>a b. mid + 1 \<le> a \<and> a \<le> b \<and> b < high \<longrightarrow> key a \<le> key b"
        using "1.prems"(1) mid by auto
      from "1.IH"(1) [OF True mid_def le this] mid
      have ih: "mid + 1 \<le> upper_bound (mid + 1) high key v"
        "upper_bound (mid + 1) high key v \<le> high"
        "\<forall>a. mid + 1 \<le> a \<and> a < upper_bound (mid + 1) high key v \<longrightarrow> key a \<le> v"
        "\<forall>a. upper_bound (mid + 1) high key v \<le> a \<and> a < high \<longrightarrow> v < key a"
        by auto
      have "key a \<le> v" if "low \<le> a" "a < upper_bound (mid + 1) high key v" for a
      proof (cases "a \<le> mid")
        case True
        with "1.prems"(1) that mid have "key a \<le> key mid" by auto
        with le show ?thesis by simp
      next
        case False
        with ih(3) that show ?thesis by auto
      qed
      with ih mid show ?thesis unfolding eq by auto
    next
      case gt: False
      have eq: "upper_bound low high key v = upper_bound low mid key v"
        using True gt by (simp add: upper_bound.simps [of low high] mid_def Let_def)
      have "\<forall>a b. low \<le> a \<and> a \<le> b \<and> b < mid \<longrightarrow> key a \<le> key b"
        using "1.prems"(1) mid by auto
      from "1.IH"(2) [OF True mid_def gt this] mid
      have ih: "low \<le> upper_bound low mid key v"
        "upper_bound low mid key v \<le> mid"
        "\<forall>a. low \<le> a \<and> a < upper_bound low mid key v \<longrightarrow> key a \<le> v"
        "\<forall>a. upper_bound low mid key v \<le> a \<and> a < mid \<longrightarrow> v < key a"
        by auto
      have "v < key a" if "upper_bound low mid key v \<le> a" "a < high" for a
      proof (cases "a < mid")
        case True
        with ih(4) that show ?thesis by auto
      next
        case False
        with "1.prems"(1) that mid have "key mid \<le> key a" by auto
        with gt show ?thesis by simp
      qed
      with ih mid show ?thesis unfolding eq by auto
    qed
  qed
qed

lemma chain_props:
  "chain xs p k js \<Longrightarrow>
     js \<noteq> [] \<and> last js = k \<and> sorted_wrt (<) js \<and>
     sorted_wrt (<) (map (\<lambda>j. claim_order (xs ! j)) js) \<and> (\<forall>j\<in>set js. j \<le> k) \<and>
     (\<forall>j\<in>set js. claim_order (xs ! j) \<le> claim_order (xs ! k))"
proof (induction rule: chain.induct)
  case (chain_first k)
  show ?case by simp
next
  case (chain_next k k' js)
  then have ih: "js \<noteq> []" "last js = k'" "sorted_wrt (<) js"
    "sorted_wrt (<) (map (\<lambda>j. claim_order (xs ! j)) js)" "\<forall>j\<in>set js. j \<le> k'"
    "\<forall>j\<in>set js. claim_order (xs ! j) \<le> claim_order (xs ! k')"
    by simp_all
  have "\<forall>j\<in>set js. j < k" using ih(5) chain_next.hyps(2) by auto
  moreover have "\<forall>j\<in>set js. claim_order (xs ! j) < claim_order (xs ! k)"
    using ih(6) chain_next.hyps(3) by auto
  ultimately show ?case using ih
    by (auto simp: sorted_wrt_append intro: less_imp_le)
qed

lemma chain_update:
  "chain xs p k js \<Longrightarrow> k < i \<Longrightarrow> chain xs (p[i := x]) k js"
proof (induction rule: chain.induct)
  case (chain_first k)
  then show ?case by (simp add: chain.chain_first)
next
  case (chain_next k k' js)
  then have "chain xs (p[i := x]) k' js" by simp
  moreover have "p[i := x] ! k = int k' + 1" using chain_next by simp
  ultimately show ?case using chain_next.hyps(2,3) by (rule chain.chain_next [rotated 3])
qed

lemma chain_inc: "chain xs p k js \<Longrightarrow> k < i \<Longrightarrow> inc xs i js"
  using chain_props [of xs p k js] by (auto simp: inc_def)

lemma inc_snoc:
  "inc xs (Suc i) js \<Longrightarrow> js \<noteq> [] \<Longrightarrow> last js = i \<Longrightarrow>
     inc xs i (butlast js) \<and>
     (\<forall>j\<in>set (butlast js). claim_order (xs ! j) < claim_order (xs ! i))"
proof -
  assume a: "inc xs (Suc i) js" "js \<noteq> []" "last js = i"
  then have js: "js = butlast js @ [i]" by (metis append_butlast_last_id)
  from a(1) have "sorted_wrt (<) (butlast js @ [i])"
    "sorted_wrt (<) (map (\<lambda>j. claim_order (xs ! j)) (butlast js @ [i]))"
    unfolding inc_def using js by simp_all
  then show ?thesis by (auto simp: inc_def sorted_wrt_append)
qed

lemma inc_last_less:
  "inc xs (Suc i) js \<Longrightarrow> js \<noteq> [] \<Longrightarrow> last js \<noteq> i \<Longrightarrow> inc xs i js"
proof -
  assume a: "inc xs (Suc i) js" "js \<noteq> []" "last js \<noteq> i"
  then have js: "js = butlast js @ [last js]" by simp
  from a(1) have s: "sorted_wrt (<) js" and b: "\<forall>j\<in>set js. j < Suc i" by (simp_all add: inc_def)
  from s js have "\<forall>j\<in>set (butlast js). j < last js" by (metis sorted_wrt_append list.set_intros(1))
  moreover have "last js < i" using b a(2,3) by (metis last_in_set less_Suc_eq)
  ultimately have "\<forall>j\<in>set js. j < i"
    by (metis js Un_iff empty_iff insert_iff less_trans list.set(1) list.set(2) set_append)
  with a(1) show ?thesis by (simp add: inc_def)
qed

lemma lis_step_inv:
  assumes inv: "tables_inv xs i st" and i: "i < length xs" and dist: "distinct (map claim_order xs)"
  shows "tables_inv xs (Suc i) (lis_step xs i st)"
proof -
  obtain m p L where st: "st = (m, p, L)" by (cases st) auto
  define co where "co = (\<lambda>j. claim_order (xs ! j))"
  define key where "key = (\<lambda>idx. claim_order (xs ! nat (m ! idx)))"
  define r where "r = upper_bound 1 (L + 1) key (co i)"
  from inv st have len: "length m = length xs + 1" "length p = length xs" and Li: "L \<le> i"
    and m0: "m ! 0 = - 1"
    and ent: "\<And>j. 1 \<le> j \<Longrightarrow> j \<le> L \<Longrightarrow> \<exists>k js. m ! j = int k \<and> k < i \<and> chain xs p k js \<and> length js = j"
    and tails: "\<And>j j'. 1 \<le> j \<Longrightarrow> j < j' \<Longrightarrow> j' \<le> L \<Longrightarrow> key j < key j'"
    and opt: "\<And>js. js \<noteq> [] \<Longrightarrow> inc xs i js \<Longrightarrow> length js \<le> L \<and> key (length js) \<le> co (last js)"
    by (auto simp: tables_inv_def key_def co_def)
  have neq: "co k \<noteq> co i" if "k < i" for k
    using dist i that by (auto simp: co_def distinct_conv_nth)
  have keyneq: "key j \<noteq> co i" if "1 \<le> j" "j \<le> L" for j
  proof -
    from ent [OF that] obtain k where "m ! j = int k" "k < i" by blast
    then show ?thesis using neq [of k] by (simp add: key_def co_def)
  qed
  have mono: "\<forall>a b. 1 \<le> a \<and> a \<le> b \<and> b < L + 1 \<longrightarrow> key a \<le> key b"
  proof (intro allI impI)
    fix a b assume "1 \<le> a \<and> a \<le> b \<and> b < L + 1"
    then show "key a \<le> key b" using tails [of a b] by (cases "a = b") auto
  qed
  from upper_bound_spec [OF mono, of "co i"]
  have r1: "1 \<le> r" and rL: "r \<le> L + 1"
    and below: "\<And>a. 1 \<le> a \<Longrightarrow> a < r \<Longrightarrow> key a < co i"
    and above: "\<And>a. r \<le> a \<Longrightarrow> a \<le> L \<Longrightarrow> co i < key a"
    using keyneq by (auto simp: r_def less_le)
  define m' where "m' = m[r := int i]"
  define p' where "p' = p[i := m ! (r - 1) + 1]"
  define key' where "key' = (\<lambda>idx. claim_order (xs ! nat (m' ! idx)))"
  have step: "lis_step xs i st = (m', p', max r L)"
    using r1 by (simp add: lis_step_def st Let_def m'_def p'_def r_def key_def co_def)
  have rlen: "r < length m" using rL Li i len by simp
  have key'r: "key' r = co i" using rlen by (simp add: key'_def m'_def co_def)
  have key'o: "key' j = key j" if "j \<noteq> r" for j
    using that by (simp add: key'_def m'_def key_def)
  have chain_r: "\<exists>js. chain xs p' i js \<and> length js = r"
  proof (cases "r = 1")
    case True
    then have "p' ! i = 0" using i len m0 by (simp add: p'_def)
    then have "chain xs p' i [i]" by (rule chain.chain_first)
    with True show ?thesis by auto
  next
    case False
    with r1 rL have "1 \<le> r - 1" "r - 1 \<le> L" by auto
    from ent [OF this] obtain k js where k: "m ! (r - 1) = int k" "k < i" "chain xs p k js"
      "length js = r - 1" by blast
    have "key (r - 1) < co i" using below [of "r - 1"] False r1 by auto
    then have "claim_order (xs ! k) < claim_order (xs ! i)" using k(1) by (simp add: key_def co_def)
    moreover have "p' ! i = int k + 1" using i len k(1) by (simp add: p'_def)
    moreover have "chain xs p' k js" unfolding p'_def by (rule chain_update [OF k(3,2)])
    ultimately have "chain xs p' i (js @ [i])" using k(2) by (metis chain.chain_next)
    with k(4) r1 show ?thesis by (intro exI [of _ "js @ [i]"]) auto
  qed
  have ent': "\<exists>k js. m' ! j = int k \<and> k < Suc i \<and> chain xs p' k js \<and> length js = j"
    if "1 \<le> j" "j \<le> max r L" for j
  proof (cases "j = r")
    case True
    with chain_r rlen show ?thesis by (auto simp: m'_def)
  next
    case False
    with that rL have "j \<le> L" by auto
    from ent [OF that(1) this] obtain k js where "m ! j = int k" "k < i" "chain xs p k js" "length js = j"
      by blast
    moreover from this have "chain xs p' k js" unfolding p'_def by (intro chain_update)
    ultimately show ?thesis using False by (auto simp: m'_def)
  qed
  have tails': "key' j < key' j'" if "1 \<le> j" "j < j'" "j' \<le> max r L" for j j'
  proof -
    consider "j' = r" | "j = r" | "j \<noteq> r" "j' \<noteq> r" by blast
    then show ?thesis
    proof cases
      case 1
      with that below [of j] key'r key'o [of j] show ?thesis by auto
    next
      case 2
      with that have "j' \<le> L" "r \<le> j'" by auto
      with above [of j'] key'r key'o [of j'] 2 that show ?thesis by auto
    next
      case 3
      with that rL have "j' \<le> L" by auto
      with tails [OF that(1,2)] 3 key'o show ?thesis by auto
    qed
  qed
  have opt': "length js \<le> max r L \<and> key' (length js) \<le> co (last js)"
    if js: "js \<noteq> []" "inc xs (Suc i) js" for js
  proof (cases "last js = i")
    case False
    from inc_last_less [OF js(2,1) False] have "inc xs i js" .
    from opt [OF js(1) this] have o: "length js \<le> L" "key (length js) \<le> co (last js)" by auto
    show ?thesis
    proof (cases "length js = r")
      case True
      with o above [of r] key'r show ?thesis by auto
    next
      case False
      with o key'o show ?thesis by auto
    qed
  next
    case True
    from inc_snoc [OF js(2,1) True]
    have b: "inc xs i (butlast js)" "\<forall>j\<in>set (butlast js). co j < co i" by (auto simp: co_def)
    show ?thesis
    proof (cases "butlast js = []")
      case e: True
      then have l: "length js = 1" using js(1) by (metis One_nat_def length_butlast length_0_conv Suc_pred length_greater_0_conv)
      show ?thesis
      proof (cases "r = 1")
        case True
        with l key'r \<open>last js = i\<close> show ?thesis by auto
      next
        case False
        with r1 have "1 < r" by auto
        with below [of 1] key'o [of 1] l \<open>last js = i\<close> rL show ?thesis by auto
      qed
    next
      case ne: False
      from opt [OF ne b(1)]
      have o: "length (butlast js) \<le> L" "key (length (butlast js)) \<le> co (last (butlast js))" by auto
      have "co (last (butlast js)) < co i" using b(2) ne by auto
      with o have lt: "key (length js - 1) < co i" by simp
      from ne have "length (butlast js) \<noteq> 0" by (simp del: length_butlast)
      then have l1: "1 \<le> length js - 1" by simp
      have "length js - 1 < r"
      proof (rule ccontr)
        assume "\<not> length js - 1 < r"
        then have "r \<le> length js - 1" by simp
        from above [OF this] o(1) lt show False by simp
      qed
      then have lr: "length js \<le> r" using js(1) by (cases js) auto
      show ?thesis
      proof (cases "length js = r")
        case True
        with key'r \<open>last js = i\<close> show ?thesis by auto
      next
        case False
        with lr have "length js < r" by simp
        moreover have "1 \<le> length js" using js(1) by (cases js) auto
        ultimately show ?thesis
          using below [of "length js"] key'o [of "length js"] \<open>last js = i\<close> by auto
      qed
    qed
  qed
  have "length m' = length xs + 1" "length p' = length xs" "max r L \<le> Suc i" "m' ! 0 = - 1"
    using len rL Li m0 r1 by (simp_all add: m'_def p'_def)
  with ent' tails' opt' show ?thesis
    unfolding step tables_inv_def by (simp add: key'_def co_def)
qed

lemma tables_inv_init: "tables_inv xs 0 (init_tables xs)"
  by (simp add: tables_inv_def init_tables_def inc_def)

lemma fold_lis_step_inv:
  assumes "distinct (map claim_order xs)"
  shows "k \<le> length xs \<Longrightarrow> tables_inv xs k (fold (lis_step xs) [0..<k] (init_tables xs))"
proof (induction k)
  case 0
  show ?case by (simp add: tables_inv_init)
next
  case (Suc k)
  then have "tables_inv xs k (fold (lis_step xs) [0..<k] (init_tables xs))" and "k < length xs"
    by simp_all
  from lis_step_inv [OF this assms] show ?case by simp
qed

lemma lis_tables_inv:
  "distinct (map claim_order xs) \<Longrightarrow> tables_inv xs (length xs) (lis_tables xs)"
  using fold_lis_step_inv [of xs "length xs"] by (simp add: lis_tables_def init_tables_def)

subsection \<open>The second loop: the nodes to keep and the nodes to move\<close>

lemma upt_split: "a \<le> b \<Longrightarrow> b \<le> c \<Longrightarrow> [a..<c] = [a..<b] @ [b..<c]"
  using upt_add_eq_append [of a b "c - b"] by simp

lemma push_range_eq:
  "lo \<le> hi \<Longrightarrow>
     push_range xs (int hi - 1) (int lo) tm = (tm @ map ((!) xs) (rev [lo..<hi]), int lo - 1)"
proof (induction hi arbitrary: tm)
  case 0
  then show ?case by (simp add: push_range.simps [of xs "- 1"])
next
  case (Suc hi)
  show ?case
  proof (cases "lo \<le> hi")
    case True
    have "push_range xs (int (Suc hi) - 1) (int lo) tm =
            push_range xs (int hi - 1) (int lo) (tm @ [xs ! hi])"
      using True by (subst push_range.simps) simp
    also have "\<dots> = ((tm @ [xs ! hi]) @ map ((!) xs) (rev [lo..<hi]), int lo - 1)"
      by (rule Suc.IH [OF True])
    finally show ?thesis using True by simp
  next
    case False
    with Suc.prems have "lo = Suc hi" by simp
    then show ?thesis by (subst push_range.simps) simp
  qed
qed

lemma walk_chain:
  "chain xs p k js \<Longrightarrow> k < hi \<Longrightarrow>
     walk xs p (int k + 1) (int hi - 1) lis tm =
       Some (lis @ map ((!) xs) (rev js), tm @ map ((!) xs) (rev (others (hd js + 1) hi js)),
             int (hd js) - 1)"
proof (induction arbitrary: hi lis tm rule: chain.induct)
  case (chain_first k)
  have pr: "push_range xs (int hi - 1) (int k + 1) tm =
          (tm @ map ((!) xs) (rev [Suc k..<hi]), int k)"
    using push_range_eq [of "Suc k" hi xs tm] chain_first.prems by (simp add: add.commute)
  have o: "others (Suc k) hi [k] = [Suc k..<hi]"
    by (auto simp: others_def filter_id_conv)
  show ?case
    using chain_first.hyps o
    by (subst walk.simps) (simp add: pr walk.simps [of xs p 0])
next
  case (chain_next k k' js)
  from chain_props [OF chain_next.hyps(4)]
  have js: "js \<noteq> []" "last js = k'" "\<forall>j\<in>set js. j \<le> k'" by simp_all
  have hd: "hd js \<le> k'" using js by (metis hd_in_set)
  have pr: "push_range xs (int hi - 1) (int k + 1) tm =
          (tm @ map ((!) xs) (rev [Suc k..<hi]), int k)"
    using push_range_eq [of "Suc k" hi xs tm] chain_next.prems by (simp add: add.commute)
  have ih: "walk xs p (int k' + 1) (int k - 1) (lis @ [xs ! k]) (tm @ map ((!) xs) (rev [Suc k..<hi])) =
      Some ((lis @ [xs ! k]) @ map ((!) xs) (rev js),
            (tm @ map ((!) xs) (rev [Suc k..<hi])) @ map ((!) xs) (rev (others (hd js + 1) k js)),
            int (hd js) - 1)"
    by (rule chain_next.IH [OF chain_next.hyps(2)])
  have parts: "[hd js + 1..<hi] = [hd js + 1..<k] @ [k] @ [Suc k..<hi]"
  proof -
    have "[hd js + 1..<hi] = [hd js + 1..<k] @ [k..<hi]"
      using hd chain_next.hyps(2) chain_next.prems by (intro upt_split) simp_all
    moreover have "[k..<hi] = [k] @ [Suc k..<hi]"
      using chain_next.prems by (simp add: upt_conv_Cons)
    ultimately show ?thesis by simp
  qed
  have o: "others (hd (js @ [k]) + 1) hi (js @ [k]) = others (hd js + 1) k js @ [Suc k..<hi]"
  proof -
    define P where "P = (\<lambda>j. j \<notin> set (js @ [k]))"
    have h: "hd (js @ [k]) = hd js" using js(1) by simp
    have a: "filter P [hd js + 1..<k] = filter (\<lambda>j. j \<notin> set js) [hd js + 1..<k]"
      unfolding P_def by (rule filter_cong) auto
    have b: "filter P [Suc k..<hi] = [Suc k..<hi]"
      unfolding P_def using js(3) chain_next.hyps(2) by (auto simp: filter_id_conv)
    have c: "filter P [k] = []" by (simp add: P_def)
    have "filter P [hd js + 1..<hi] = filter P [hd js + 1..<k] @ filter P [k] @ filter P [Suc k..<hi]"
      unfolding parts by (simp only: filter_append)
    also have "\<dots> = filter (\<lambda>j. j \<notin> set js) [hd js + 1..<k] @ [Suc k..<hi]"
      unfolding a b c by simp
    finally show ?thesis unfolding others_def h P_def .
  qed
  have "walk xs p (int k + 1) (int hi - 1) lis tm =
          walk xs p (int k' + 1) (int k - 1) (lis @ [xs ! k]) (tm @ map ((!) xs) (rev [Suc k..<hi]))"
    using chain_next.hyps(1) by (subst walk.simps) (simp add: pr Let_def)
  then show ?case unfolding ih o using js(1) by simp
qed

lemma others_whole:
  assumes "js \<noteq> []" "sorted_wrt (<) js" "\<forall>j\<in>set js. j < n"
  shows "others 0 n js = [0..<hd js] @ others (hd js + 1) n js"
proof -
  from assms obtain h t where js: "js = h # t" by (cases js) auto
  with assms have h: "h < n" "\<forall>j\<in>set t. h < j" by auto
  have "[0..<n] = [0..<h] @ [h..<n]" using h(1) by (intro upt_split) simp_all
  then have "[0..<n] = [0..<h] @ [h] @ [h + 1..<n]"
    using h(1) by (simp add: upt_conv_Cons)
  moreover have "filter (\<lambda>j. j \<notin> set js) [0..<h] = [0..<h]"
    using h(2) js by (auto simp: filter_id_conv)
  ultimately show ?thesis by (simp add: others_def js del: upt_Suc)
qed

text \<open>What the two collecting loops leave behind, for the tables of the first loop.\<close>

lemma collect:
  assumes dist: "distinct (map claim_order xs)" and tab: "lis_tables xs = (m, p, L)"
  shows "\<exists>js lis1 tm1 last1.
           inc xs (length xs) js \<and> length js = L \<and>
           (\<forall>ks. inc xs (length xs) ks \<longrightarrow> length ks \<le> L) \<and>
           walk xs p (m ! L + 1) (int (length xs) - 1) [] [] = Some (lis1, tm1, last1) \<and>
           rev lis1 = map ((!) xs) js \<and>
           fst (push_range xs last1 0 tm1) = map ((!) xs) (rev (others 0 (length xs) js))"
proof -
  from lis_tables_inv [OF dist] tab have inv: "tables_inv xs (length xs) (m, p, L)" by simp
  then have m0: "m ! 0 = - 1"
    and ent: "\<And>j. 1 \<le> j \<Longrightarrow> j \<le> L \<Longrightarrow>
        \<exists>k js. m ! j = int k \<and> k < length xs \<and> chain xs p k js \<and> length js = j"
    and opt: "\<And>js. js \<noteq> [] \<Longrightarrow> inc xs (length xs) js \<Longrightarrow> length js \<le> L"
    by (auto simp: tables_inv_def)
  have best: "\<forall>ks. inc xs (length xs) ks \<longrightarrow> length ks \<le> L"
    using opt by (metis le0 list.size(3))
  show ?thesis
  proof (cases "L = 0")
    case True
    have "length xs = 0"
    proof (rule ccontr)
      assume "length xs \<noteq> 0"
      then have "inc xs (length xs) [0]" by (simp add: inc_def)
      from opt [OF _ this] True show False by simp
    qed
    then have xs: "xs = []" by simp
    have "walk xs p (m ! L + 1) (int (length xs) - 1) [] [] = Some ([], [], - 1)"
      using True m0 xs by (subst walk.simps) simp
    moreover have "fst (push_range xs (- 1) 0 []) = []"
      by (subst push_range.simps) simp
    moreover have "inc xs (length xs) []" by (simp add: inc_def)
    ultimately show ?thesis using True best xs
      by (intro exI [of _ "[]"]) (simp add: others_def)
  next
    case False
    then have "1 \<le> L" by simp
    from ent [OF this le_refl] obtain k js where k: "m ! L = int k" "k < length xs"
      "chain xs p k js" "length js = L" by blast
    from chain_props [OF k(3)] have js: "js \<noteq> []" "sorted_wrt (<) js" "\<forall>j\<in>set js. j \<le> k"
      by simp_all
    have lt: "\<forall>j\<in>set js. j < length xs" using js(3) k(2) by auto
    have w: "walk xs p (m ! L + 1) (int (length xs) - 1) [] [] =
        Some (map ((!) xs) (rev js), map ((!) xs) (rev (others (hd js + 1) (length xs) js)),
              int (hd js) - 1)"
      using walk_chain [OF k(3,2), of "[]" "[]"] k(1) by simp
    have "push_range xs (int (hd js) - 1) (int 0) (map ((!) xs) (rev (others (hd js + 1) (length xs) js))) =
        (map ((!) xs) (rev (others (hd js + 1) (length xs) js)) @ map ((!) xs) (rev [0..<hd js]), int 0 - 1)"
      by (rule push_range_eq) simp
    then have "fst (push_range xs (int (hd js) - 1) 0 (map ((!) xs) (rev (others (hd js + 1) (length xs) js)))) =
        map ((!) xs) (rev (others 0 (length xs) js))"
      by (simp add: others_whole [OF js(1,2) lt])
    moreover have "inc xs (length xs) js" by (rule chain_inc [OF k(3,2)])
    ultimately show ?thesis using w k(4) best
      by (intro exI [of _ js]) (simp add: rev_map)
  qed
qed

subsection \<open>The third loop: the moves\<close>

lemma advance_spec:
  "j \<le> length lis \<Longrightarrow>
     j \<le> advance lis t j \<and> advance lis t j \<le> length lis \<and>
     (\<forall>k. j \<le> k \<and> k < advance lis t j \<longrightarrow> claim_order (lis ! k) \<le> claim_order t) \<and>
     (advance lis t j < length lis \<longrightarrow> claim_order t < claim_order (lis ! advance lis t j))"
proof (induction lis t j rule: advance.induct)
  case (1 lis t j)
  show ?case
  proof (cases "j < length lis \<and> claim_order (lis ! j) \<le> claim_order t")
    case False
    then have "advance lis t j = j" by (subst advance.simps) auto
    with False "1.prems" show ?thesis by auto
  next
    case True
    then have eq: "advance lis t j = advance lis t (j + 1)"
      by (subst advance.simps) auto
    from True have "j + 1 \<le> length lis" by simp
    from "1.IH" [OF True this]
    have ih: "j + 1 \<le> advance lis t (j + 1)" "advance lis t (j + 1) \<le> length lis"
      "\<forall>k. j + 1 \<le> k \<and> k < advance lis t (j + 1) \<longrightarrow> claim_order (lis ! k) \<le> claim_order t"
      "advance lis t (j + 1) < length lis \<longrightarrow> claim_order t < claim_order (lis ! advance lis t (j + 1))"
      by simp_all
    have "claim_order (lis ! k) \<le> claim_order t" if "j \<le> k" "k < advance lis t (j + 1)" for k
    proof (cases "k = j")
      case True
      with \<open>j < length lis \<and> claim_order (lis ! j) \<le> claim_order t\<close> show ?thesis by simp
    next
      case False
      with that ih(3) show ?thesis by auto
    qed
    with ih show ?thesis unfolding eq by auto
  qed
qed

lemma sorted_append_one:
  "sorted_wrt (<) (map f (filter Q rest)) \<Longrightarrow> Q t \<Longrightarrow> \<forall>x\<in>set rest. Q x \<longrightarrow> f x < f t \<Longrightarrow>
     sorted_wrt (<) (map f (filter Q (rest @ [t])))"
  for f :: "'a \<Rightarrow> int"
  by (auto simp: sorted_wrt_append)

lemma sorted_insert_before:
  fixes f :: "'a \<Rightarrow> int"
  assumes s: "sorted_wrt (<) (map f (filter Q rest))" and t: "Q t" and a: "Q a" "a \<in> set rest"
    and ta: "f t < f a" and low: "\<forall>x\<in>set rest. Q x \<and> f x < f a \<longrightarrow> f x < f t"
  shows "sorted_wrt (<) (map f (filter Q (takeWhile (\<lambda>x. x \<noteq> a) rest @ t # dropWhile (\<lambda>x. x \<noteq> a) rest)))"
proof -
  define tw where "tw = takeWhile (\<lambda>x. x \<noteq> a) rest"
  define dw where "dw = dropWhile (\<lambda>x. x \<noteq> a) rest"
  have rest: "rest = tw @ dw" by (simp add: tw_def dw_def)
  have "dw \<noteq> []" using a(2) by (auto simp: dw_def dropWhile_eq_Nil_conv)
  moreover from this have "hd dw = a" using hd_dropWhile [of "\<lambda>x. x \<noteq> a" rest] by (simp add: dw_def)
  ultimately obtain dw' where dw: "dw = a # dw'" by (cases dw) auto
  from s have s': "sorted_wrt (<) (map f (filter Q tw) @ f a # map f (filter Q dw'))"
    using a(1) by (simp add: rest dw)
  have 1: "\<forall>x\<in>set tw. Q x \<longrightarrow> f x < f a" using s' by (auto simp: sorted_wrt_append)
  have 2: "\<forall>y\<in>set dw'. Q y \<longrightarrow> f a < f y" using s' by (auto simp: sorted_wrt_append)
  have 3: "\<forall>x\<in>set tw. Q x \<longrightarrow> f x < f t" using 1 low by (auto simp: rest)
  have 4: "\<forall>y\<in>set dw'. Q y \<longrightarrow> f t < f y" using 2 ta by fastforce
  have "sorted_wrt (<) (map f (filter Q tw) @ f t # f a # map f (filter Q dw'))"
    using s' 1 2 3 4 ta by (auto simp: sorted_wrt_append)
  then show ?thesis using t a(1) unfolding tw_def [symmetric] dw_def [symmetric] by (simp add: dw)
qed

lemma mset_insert_before:
  "mset (takeWhile P xs @ t # dropWhile P xs) = add_mset t (mset xs)"
proof -
  have "mset xs = mset (takeWhile P xs @ dropWhile P xs)" by simp
  then show ?thesis by (simp del: takeWhile_dropWhile_id)
qed

lemma filter_remove1_notin:
  "distinct nodes \<Longrightarrow>
     filter (\<lambda>x. x \<notin> set ts) (remove1 t nodes) = filter (\<lambda>x. x \<notin> set (t # ts)) nodes"
  by (auto simp: distinct_remove1_removeAll removeAll_filter_not_eq intro!: filter_cong)

lemma insertBefore_props:
  assumes d: "distinct nodes" and t: "t \<in> set nodes" "t \<notin> set ts"
    and s: "sorted_wrt (<) (map claim_order (filter (\<lambda>x. x \<notin> set (t # ts)) nodes))"
    and anchor: "case anchor of
        None \<Rightarrow> \<forall>x\<in>set nodes. x \<notin> set (t # ts) \<longrightarrow> claim_order x < claim_order t
      | Some a \<Rightarrow> a \<in> set nodes \<and> a \<noteq> t \<and> a \<notin> set ts \<and> claim_order t < claim_order a \<and>
          (\<forall>x\<in>set nodes. x \<notin> set (t # ts) \<and> claim_order x < claim_order a \<longrightarrow>
               claim_order x < claim_order t)"
  shows "\<exists>nodes'. insertBefore nodes t anchor = Some nodes' \<and> mset nodes' = mset nodes \<and>
           sorted_wrt (<) (map claim_order (filter (\<lambda>x. x \<notin> set ts) nodes'))"
proof -
  define rest where "rest = remove1 t nodes"
  have rs: "set rest = set nodes - {t}" using d by (simp add: rest_def)
  have s': "sorted_wrt (<) (map claim_order (filter (\<lambda>x. x \<notin> set ts) rest))"
    using s filter_remove1_notin [OF d, of ts t] by (simp add: rest_def)
  have m: "add_mset t (mset rest) = mset nodes" using t(1) by (simp add: rest_def)
  show ?thesis
  proof (cases anchor)
    case None
    with anchor rs have "\<forall>x\<in>set rest. x \<notin> set ts \<longrightarrow> claim_order x < claim_order t" by auto
    from sorted_append_one [OF s' t(2) this] m None show ?thesis
      by (simp add: insertBefore_def rest_def)
  next
    case (Some a)
    with anchor have a: "a \<in> set nodes" "a \<noteq> t" "a \<notin> set ts" "claim_order t < claim_order a"
      "\<forall>x\<in>set nodes. x \<notin> set (t # ts) \<and> claim_order x < claim_order a \<longrightarrow>
               claim_order x < claim_order t" by simp_all
    have "a \<in> set rest" using a(1,2) rs by simp
    moreover have "\<forall>x\<in>set rest. x \<notin> set ts \<and> claim_order x < claim_order a \<longrightarrow>
        claim_order x < claim_order t" using a(5) rs by auto
    ultimately have "sorted_wrt (<) (map claim_order (filter (\<lambda>x. x \<notin> set ts)
          (takeWhile (\<lambda>x. x \<noteq> a) rest @ t # dropWhile (\<lambda>x. x \<noteq> a) rest)))"
      using s' t(2) a(3,4) by (intro sorted_insert_before) simp_all
    moreover have "mset (takeWhile (\<lambda>x. x \<noteq> a) rest @ t # dropWhile (\<lambda>x. x \<noteq> a) rest) = mset nodes"
      unfolding mset_insert_before m ..
    ultimately show ?thesis using Some a(1,2)
      by (simp add: insertBefore_def rest_def Let_def)
  qed
qed

lemma move_all_sorted:
  assumes "inj_on claim_order (set nodes)" "distinct nodes"
    "set ts \<subseteq> set nodes" "set lis \<subseteq> set nodes" "set lis \<inter> set ts = {}"
    "sorted_wrt (<) (map claim_order lis)" "sorted_wrt (<) (map claim_order ts)"
    "sorted_wrt (<) (map claim_order (filter (\<lambda>x. x \<notin> set ts) nodes))"
    "\<forall>x\<in>set nodes. x \<notin> set lis \<and> x \<notin> set ts \<longrightarrow> (\<forall>t\<in>set ts. claim_order x < claim_order t)"
    "j \<le> length lis" "\<forall>k<j. \<forall>t\<in>set ts. claim_order (lis ! k) < claim_order t"
  shows "\<exists>nodes' ops'. move_all lis ts j nodes ops = Some (nodes', ops @ ops') \<and>
           map fst ops' = ts \<and> sorted_wrt (<) (map claim_order nodes') \<and>
           mset nodes' = mset nodes"
  using assms
proof (induction ts arbitrary: j nodes ops)
  case Nil
  then show ?case by simp
next
  case (Cons t ts)
  note inj = Cons.prems(1) and d = Cons.prems(2) and sub = Cons.prems(3,4) and dis = Cons.prems(5)
    and sl = Cons.prems(6) and st = Cons.prems(7) and sf = Cons.prems(8) and pre = Cons.prems(9)
    and j = Cons.prems(10) and jinv = Cons.prems(11)
  define j' where "j' = advance lis t j"
  define anchor where "anchor = (if j' < length lis then Some (lis ! j') else None)"
  from advance_spec [OF j, of t]
  have adv: "j \<le> j'" "j' \<le> length lis"
    "\<forall>k. j \<le> k \<and> k < j' \<longrightarrow> claim_order (lis ! k) \<le> claim_order t"
    "j' < length lis \<longrightarrow> claim_order t < claim_order (lis ! j')"
    by (simp_all add: j'_def)
  have tts: "\<forall>t'\<in>set ts. claim_order t < claim_order t'" using st by simp
  have t: "t \<in> set nodes" "t \<notin> set lis" "t \<notin> set ts" using sub dis tts by auto
  have below: "claim_order (lis ! k) < claim_order t" if "k < j'" for k
  proof (cases "k < j")
    case True
    with jinv show ?thesis by simp
  next
    case False
    with that adv have le: "claim_order (lis ! k) \<le> claim_order t" and "k < length lis" by auto
    then have "lis ! k \<in> set lis" by simp
    with t(1,2) sub(2) inj have "claim_order (lis ! k) \<noteq> claim_order t"
      by (metis inj_onD subsetD)
    with le show ?thesis by simp
  qed
  have low: "claim_order x < claim_order t"
    if x: "x \<in> set nodes" "x \<notin> set (t # ts)" and b: "x \<in> set lis \<longrightarrow> (\<exists>k<j'. x = lis ! k)" for x
  proof (cases "x \<in> set lis")
    case True
    with b below show ?thesis by auto
  next
    case False
    with pre x show ?thesis by simp
  qed
  have anchor: "case anchor of
        None \<Rightarrow> \<forall>x\<in>set nodes. x \<notin> set (t # ts) \<longrightarrow> claim_order x < claim_order t
      | Some a \<Rightarrow> a \<in> set nodes \<and> a \<noteq> t \<and> a \<notin> set ts \<and> claim_order t < claim_order a \<and>
          (\<forall>x\<in>set nodes. x \<notin> set (t # ts) \<and> claim_order x < claim_order a \<longrightarrow>
               claim_order x < claim_order t)"
  proof (cases "j' < length lis")
    case False
    with adv(2) have e: "j' = length lis" by simp
    have "claim_order x < claim_order t" if "x \<in> set nodes" "x \<notin> set (t # ts)" for x
      using that e by (intro low) (auto simp: in_set_conv_nth)
    with False show ?thesis by (simp add: anchor_def)
  next
    case True
    define a where "a = lis ! j'"
    have ain: "a \<in> set lis" using True by (simp add: a_def)
    have "claim_order x < claim_order t"
      if x: "x \<in> set nodes" "x \<notin> set (t # ts)" "claim_order x < claim_order a" for x
    proof (rule low [OF x(1,2)], rule impI)
      assume "x \<in> set lis"
      then obtain k where k: "k < length lis" "x = lis ! k" by (auto simp: in_set_conv_nth)
      have "k < j'"
      proof (rule ccontr)
        assume "\<not> k < j'"
        then have "j' = k \<or> j' < k" by auto
        then have "claim_order a \<le> claim_order x"
        proof
          assume "j' = k" then show ?thesis by (simp add: a_def k)
        next
          assume "j' < k"
          with sorted_wrt_nth_less [OF sl, of j' k] k have "claim_order a < claim_order x"
            by (simp add: a_def)
          then show ?thesis by simp
        qed
        with x(3) show False by simp
      qed
      with k show "\<exists>k<j'. x = lis ! k" by auto
    qed
    moreover have "a \<in> set nodes" "a \<noteq> t" "a \<notin> set ts" using ain sub t dis by auto
    moreover have "claim_order t < claim_order a" using adv(4) True by (simp add: a_def)
    ultimately show ?thesis using True by (simp add: anchor_def a_def)
  qed
  from insertBefore_props [OF d t(1,3) sf anchor]
  obtain nodes' where n: "insertBefore nodes t anchor = Some nodes'" "mset nodes' = mset nodes"
    "sorted_wrt (<) (map claim_order (filter (\<lambda>x. x \<notin> set ts) nodes'))" by blast
  from n(2) have sn: "set nodes' = set nodes" by (rule mset_eq_setD)
  from n(2) d have dn: "distinct nodes'" by (metis mset_eq_imp_distinct_iff)
  have pre': "\<forall>x\<in>set nodes'. x \<notin> set lis \<and> x \<notin> set ts \<longrightarrow> (\<forall>t\<in>set ts. claim_order x < claim_order t)"
  proof (intro ballI impI)
    fix x t' assume x: "x \<in> set nodes'" "x \<notin> set lis \<and> x \<notin> set ts" and t': "t' \<in> set ts"
    show "claim_order x < claim_order t'"
    proof (cases "x = t")
      case True
      with tts t' show ?thesis by simp
    next
      case False
      with pre x t' sn show ?thesis by simp
    qed
  qed
  have jinv': "\<forall>k<j'. \<forall>t\<in>set ts. claim_order (lis ! k) < claim_order t"
    using below tts by fastforce
  have "\<exists>nodes'' ops'. move_all lis ts j' nodes' (ops @ [(t, anchor)]) = Some (nodes'', (ops @ [(t, anchor)]) @ ops') \<and>
           map fst ops' = ts \<and> sorted_wrt (<) (map claim_order nodes'') \<and>
           mset nodes'' = mset nodes'"
  proof (rule Cons.IH)
    show "inj_on claim_order (set nodes')" using inj sn by simp
    show "distinct nodes'" by (rule dn)
    show "set ts \<subseteq> set nodes'" using sub sn by simp
    show "set lis \<subseteq> set nodes'" using sub sn by simp
    show "set lis \<inter> set ts = {}" using dis by auto
    show "sorted_wrt (<) (map claim_order lis)" by (rule sl)
    show "sorted_wrt (<) (map claim_order ts)" using st by simp
    show "sorted_wrt (<) (map claim_order (filter (\<lambda>x. x \<notin> set ts) nodes'))" by (rule n(3))
    show "\<forall>x\<in>set nodes'. x \<notin> set lis \<and> x \<notin> set ts \<longrightarrow> (\<forall>t\<in>set ts. claim_order x < claim_order t)"
      by (rule pre')
    show "j' \<le> length lis" by (rule adv(2))
    show "\<forall>k<j'. \<forall>t\<in>set ts. claim_order (lis ! k) < claim_order t" by (rule jinv')
  qed
  then obtain nodes'' ops' where r: "move_all lis ts j' nodes' (ops @ [(t, anchor)]) =
      Some (nodes'', (ops @ [(t, anchor)]) @ ops')" "map fst ops' = ts"
    "sorted_wrt (<) (map claim_order nodes'')" "mset nodes'' = mset nodes'" by blast
  have "move_all lis (t # ts) j nodes ops = Some (nodes'', ops @ ((t, anchor) # ops'))"
    using n(1) r(1) by (simp add: Let_def j'_def [symmetric] anchor_def [symmetric])
  with r n(2) show ?case by (intro exI [of _ nodes''] exI [of _ "(t, anchor) # ops'"]) simp
qed

subsection \<open>Subsequences and their positions\<close>

lemma subseq_map_nth:
  "sorted_wrt (<) js \<Longrightarrow> \<forall>j\<in>set js. j < n \<Longrightarrow> n \<le> length xs \<Longrightarrow>
     subseq (map ((!) xs) js) (take n xs)"
proof (induction js arbitrary: n rule: rev_induct)
  case Nil
  show ?case by simp
next
  case (snoc l js)
  from snoc.prems have l: "l < n" "l < length xs" and s: "sorted_wrt (<) js"
    and b: "\<forall>j\<in>set js. j < l" by (auto simp: sorted_wrt_append)
  from snoc.IH [OF s b] l(2) have "subseq (map ((!) xs) js) (take l xs)" by simp
  then have "subseq (map ((!) xs) js @ [xs ! l]) (take l xs @ [xs ! l])"
    by (intro list_emb_append_mono) simp_all
  then have "subseq (map ((!) xs) (js @ [l])) (take (Suc l) xs)"
    using l(2) by (simp add: take_Suc_conv_app_nth)
  then have "subseq (map ((!) xs) (js @ [l])) (take (Suc l) xs @ drop (Suc l) (take n xs))"
    by (rule list_emb_prefix)
  moreover have "take (Suc l) xs = take (Suc l) (take n xs)" using l(1) by (simp add: min_def)
  ultimately show ?case by (simp only: append_take_drop_id)
qed

lemma subseq_indices:
  "subseq ys xs \<Longrightarrow>
     \<exists>ks. sorted_wrt (<) ks \<and> (\<forall>k\<in>set ks. k < length xs) \<and> ys = map ((!) xs) ks"
proof (induction rule: list_emb.induct)
  case (list_emb_Nil ys)
  show ?case by (intro exI [of _ "[]"]) simp
next
  case (list_emb_Cons xs ys y)
  then obtain ks where ks: "sorted_wrt (<) ks" "\<forall>k\<in>set ks. k < length ys" "xs = map ((!) ys) ks"
    by blast
  show ?case using ks
    by (intro exI [of _ "map Suc ks"]) (auto simp: sorted_wrt_map)
next
  case (list_emb_Cons2 x y xs ys)
  then obtain ks where ks: "sorted_wrt (<) ks" "\<forall>k\<in>set ks. k < length ys" "xs = map ((!) ys) ks"
    by blast
  show ?case using ks list_emb_Cons2.hyps(1)
    by (intro exI [of _ "0 # map Suc ks"]) (auto simp: sorted_wrt_map)
qed

lemma inc_subseq:
  assumes "inc xs (length xs) js"
  shows "subseq (map ((!) xs) js) xs" "sorted_wrt (<) (map claim_order (map ((!) xs) js))"
proof -
  from assms have "sorted_wrt (<) js" "\<forall>j\<in>set js. j < length xs" by (simp_all add: inc_def)
  from subseq_map_nth [OF this le_refl] show "subseq (map ((!) xs) js) xs" by simp
  from assms show "sorted_wrt (<) (map claim_order (map ((!) xs) js))"
    by (simp add: inc_def comp_def)
qed

lemma subseq_inc:
  assumes "subseq ys xs" "sorted_wrt (<) (map claim_order ys)"
  shows "\<exists>ks. inc xs (length xs) ks \<and> length ks = length ys"
proof -
  from subseq_indices [OF assms(1)] obtain ks where
    ks: "sorted_wrt (<) ks" "\<forall>k\<in>set ks. k < length xs" "ys = map ((!) xs) ks" by blast
  with assms(2) have "inc xs (length xs) ks" by (simp add: inc_def comp_def)
  with ks(3) show ?thesis by auto
qed

lemma sorted_filter_nth:
  "(\<forall>i j. i < j \<and> j < length xs \<and> P (xs ! i) \<and> P (xs ! j) \<longrightarrow> R (xs ! i) (xs ! j)) \<Longrightarrow>
     sorted_wrt R (filter P xs)"
proof (induction xs)
  case Nil
  show ?case by simp
next
  case (Cons x xs)
  have "sorted_wrt R (filter P xs)"
  proof (rule Cons.IH, intro allI impI)
    fix i j assume "i < j \<and> j < length xs \<and> P (xs ! i) \<and> P (xs ! j)"
    with Cons.prems [rule_format, of "Suc i" "Suc j"] show "R (xs ! i) (xs ! j)" by simp
  qed
  moreover have "R x y" if "P x" "y \<in> set xs" "P y" for y
  proof -
    from that(2) obtain j where "j < length xs" "y = xs ! j" by (auto simp: in_set_conv_nth)
    with Cons.prems [rule_format, of 0 "Suc j"] that show ?thesis by simp
  qed
  ultimately show ?case by auto
qed

lemma sorted_pair:
  fixes g :: "nat \<Rightarrow> int"
  assumes "sorted_wrt (<) js" "sorted_wrt (<) (map g js)" "a \<in> set js" "b \<in> set js" "a < b"
  shows "g a < g b"
proof -
  from assms(3,4) obtain ia ib where i: "ia < length js" "a = js ! ia" "ib < length js" "b = js ! ib"
    by (auto simp: in_set_conv_nth)
  have "ia < ib"
  proof (rule ccontr)
    assume "\<not> ia < ib"
    then have "ib = ia \<or> ib < ia" by auto
    then have "b \<le> a"
    proof
      assume "ib = ia" with i show ?thesis by simp
    next
      assume "ib < ia"
      from sorted_wrt_nth_less [OF assms(1) this i(1)] i show ?thesis by simp
    qed
    with assms(5) show False by simp
  qed
  from sorted_wrt_nth_less [OF assms(2) this] i show ?thesis by simp
qed

lemma length_others:
  assumes "distinct js" "\<forall>j\<in>set js. j < n"
  shows "length (others 0 n js) = n - length js"
proof -
  have "{x. x \<notin> set js} \<inter> set [0..<n] = {..<n} - set js" by auto
  then have "length (others 0 n js) = card ({..<n} - set js)"
    unfolding others_def by (simp only: distinct_length_filter [OF distinct_upt])
  also have "\<dots> = card {..<n} - card (set js)"
    using assms(2) by (intro card_Diff_subset) auto
  finally show ?thesis using assms(1) by (simp add: distinct_card)
qed

text \<open>The third loop, started on what the first two loops computed.\<close>

lemma reorder:
  assumes dist: "distinct (map claim_order xs)" and inc: "inc xs (length xs) js"
  defines "lis \<equiv> map ((!) xs) js"
    and "ts \<equiv> sort_key claim_order (map ((!) xs) (rev (others 0 (length xs) js)))"
  shows "\<exists>nodes' ops. move_all lis ts 0 xs [] = Some (nodes', ops) \<and> map fst ops = ts \<and>
           sorted_wrt (<) (map claim_order nodes') \<and> mset nodes' = mset xs \<and>
           set ts \<inter> set lis = {} \<and> length ts = length xs - length js"
proof -
  define n where "n = length xs"
  define os where "os = others 0 n js"
  from dist have d: "distinct xs" and inj: "inj_on claim_order (set xs)"
    by (simp_all add: distinct_map)
  from inc have js: "sorted_wrt (<) js" "\<forall>j\<in>set js. j < n"
    "sorted_wrt (<) (map (\<lambda>j. claim_order (xs ! j)) js)" by (simp_all add: inc_def n_def)
  have djs: "distinct js" using js(1) by (simp add: strict_sorted_iff)
  have os: "set os = {i. i < n \<and> i \<notin> set js}" "distinct os" by (auto simp: os_def others_def)
  have ts: "set ts = (!) xs ` set os" by (simp add: ts_def os_def n_def)
  have lis: "set lis = (!) xs ` set js" by (simp add: lis_def)
  have mem_ts: "xs ! i \<in> set ts \<longleftrightarrow> i \<notin> set js" if "i < n" for i
  proof
    assume "xs ! i \<in> set ts"
    then obtain k where "k \<in> set os" "xs ! i = xs ! k" by (auto simp: ts)
    with os(1) that d have "i = k" by (simp add: nth_eq_iff_index_eq n_def)
    with \<open>k \<in> set os\<close> os(1) show "i \<notin> set js" by simp
  next
    assume "i \<notin> set js"
    with that os(1) show "xs ! i \<in> set ts" by (simp add: ts)
  qed
  have mem_lis: "xs ! i \<in> set lis \<longleftrightarrow> i \<in> set js" if "i < n" for i
  proof
    assume "xs ! i \<in> set lis"
    then obtain k where "k \<in> set js" "xs ! i = xs ! k" by (auto simp: lis)
    with js(2) that d have "i = k" by (simp add: nth_eq_iff_index_eq n_def)
    with \<open>k \<in> set js\<close> show "i \<in> set js" by simp
  next
    assume "i \<in> set js"
    then show "xs ! i \<in> set lis" by (simp add: lis)
  qed
  have sub_ts: "set ts \<subseteq> set xs"
  proof
    fix x assume "x \<in> set ts"
    then obtain k where "k \<in> set os" "x = xs ! k" unfolding ts by blast
    with os(1) show "x \<in> set xs" by (simp add: n_def)
  qed
  have sub_lis: "set lis \<subseteq> set xs"
  proof
    fix x assume "x \<in> set lis"
    then obtain k where "k \<in> set js" "x = xs ! k" unfolding lis by blast
    with js(2) show "x \<in> set xs" by (simp add: n_def)
  qed
  have disj: "set lis \<inter> set ts = {}"
  proof (rule ccontr)
    assume "set lis \<inter> set ts \<noteq> {}"
    then obtain x where x: "x \<in> set lis" "x \<in> set ts" by auto
    from x(1) obtain i where i: "i \<in> set js" "x = xs ! i" by (auto simp: lis)
    with js(2) have "i < n" by simp
    from mem_ts [OF this] x(2) i show False by simp
  qed
  have s_lis: "sorted_wrt (<) (map claim_order lis)" using js(3) by (simp add: lis_def comp_def)
  have s_ts: "sorted_wrt (<) (map claim_order ts)"
  proof -
    have "inj_on ((!) xs) (set os)"
    proof (rule inj_onI)
      fix a b assume "a \<in> set os" "b \<in> set os" "xs ! a = xs ! b"
      with os(1) d show "a = b" by (simp add: nth_eq_iff_index_eq n_def)
    qed
    with os(2) have "distinct (map ((!) xs) (rev os))" by (simp add: distinct_map)
    then have "distinct ts" by (simp add: ts_def os_def n_def)
    with inj sub_ts have "distinct (map claim_order ts)"
      by (auto simp: distinct_map intro: inj_on_subset)
    moreover have "sorted (map claim_order ts)" by (simp add: ts_def)
    ultimately show ?thesis by (simp add: strict_sorted_iff)
  qed
  have s_f: "sorted_wrt (<) (map claim_order (filter (\<lambda>x. x \<notin> set ts) xs))"
  proof -
    have "sorted_wrt (\<lambda>x y. claim_order x < claim_order y) (filter (\<lambda>x. x \<notin> set ts) xs)"
    proof (rule sorted_filter_nth, intro allI impI)
      fix i j assume a: "i < j \<and> j < length xs \<and> xs ! i \<notin> set ts \<and> xs ! j \<notin> set ts"
      then have "i < n" "j < n" by (simp_all add: n_def)
      with a mem_ts have "i \<in> set js" "j \<in> set js" by auto
      from sorted_pair [OF js(1,3) this] a show "claim_order (xs ! i) < claim_order (xs ! j)"
        by simp
    qed
    then show ?thesis by (simp add: sorted_wrt_map)
  qed
  have none: "\<forall>x\<in>set xs. x \<notin> set lis \<and> x \<notin> set ts \<longrightarrow> (\<forall>t\<in>set ts. claim_order x < claim_order t)"
  proof (intro ballI impI)
    fix x t assume x: "x \<in> set xs" "x \<notin> set lis \<and> x \<notin> set ts"
    from x(1) obtain i where i: "i < n" "x = xs ! i" by (auto simp: in_set_conv_nth n_def)
    with mem_ts [OF i(1)] mem_lis [OF i(1)] x(2) have False by simp
    then show "claim_order x < claim_order t" ..
  qed
  from move_all_sorted [OF inj d sub_ts sub_lis disj s_lis s_ts s_f none, of 0 "[]"]
  obtain nodes' ops where r: "move_all lis ts 0 xs [] = Some (nodes', ops)" "map fst ops = ts"
    "sorted_wrt (<) (map claim_order nodes')" "mset nodes' = mset xs" by auto
  have "length ts = length os" by (simp add: ts_def os_def n_def)
  also have "\<dots> = n - length js" unfolding os_def by (rule length_others [OF djs js(2)])
  finally have "length ts = length xs - length js" by (simp add: n_def)
  with r disj show ?thesis by (auto simp: Int_commute)
qed

subsection \<open>The example computed\<close>

lemma stamped_ex: "stamped [2, 0, 1, 4, 3] = \<lparr>hydrate_init = False, childNodes = ex_children\<rparr>"
  by (simp add: stamped_def ex_children_def)

lemma ex_length: "length ex_children = 5"
  by (simp add: ex_children_def)

lemma lis_step_tuple:
  "lis_step children i (m, p, longest) =
     (let seqLen = upper_bound 1 (longest + 1) (\<lambda>idx. claim_order (children ! nat (m ! idx)))
                     (claim_order (children ! i)) - 1
      in (m[seqLen + 1 := int i], p[i := m ! seqLen + 1], max (seqLen + 1) longest))"
  by (simp add: lis_step_def Let_def)

lemma walk_unfold:
  "walk children p cur last' lis toMove =
     (if cur \<noteq> 0
      then walk children p (p ! nat (cur - 1)) (snd (push_range children last' cur toMove) - 1)
             (lis @ [children ! nat (cur - 1)]) (fst (push_range children last' cur toMove))
      else Some (lis, toMove, last'))"
  by (subst walk.simps) (simp add: Let_def case_prod_beta)

lemma ex_tables: "lis_tables ex_children = ([- 1, 1, 2, 4, 0, 0], [0, 0, 2, 3, 3], 3)"
  by (simp add: lis_tables_def ex_children_def lis_step_tuple upper_bound.simps Let_def)

lemma ex_walk:
  "walk ex_children [0, 0, 2, 3, 3] 5 4 [] [] =
     Some ([stamp 4 3, stamp 2 1, stamp 1 0], [stamp 3 4], 0)"
  by (simp add: walk_unfold push_range.simps ex_children_def)

lemma ex_push: "push_range ex_children 0 0 [stamp 3 4] = ([stamp 3 4, stamp 0 2], - 1)"
  by (simp add: push_range.simps ex_children_def)

lemma ex_move:
  "move_all [stamp 1 0, stamp 2 1, stamp 4 3] [stamp 0 2, stamp 3 4] 0 ex_children [] =
     Some ([stamp 1 0, stamp 2 1, stamp 0 2, stamp 4 3, stamp 3 4],
           [(stamp 0 2, Some (stamp 4 3)), (stamp 3 4, None)])"
  by (simp add: advance.simps insertBefore_def ex_children_def Let_def)

lemma ex_init_hydrate:
  "init_hydrate (stamped [2, 0, 1, 4, 3]) =
     Some (\<lparr>hydrate_init = True,
             childNodes = [stamp 1 0, stamp 2 1, stamp 0 2, stamp 4 3, stamp 3 4]\<rparr>,
           [(stamp 0 2, Some (stamp 4 3)), (stamp 3 4, None)])"
  by (simp add: init_hydrate_def stamped_ex ex_tables ex_length ex_walk ex_push ex_move Let_def
      del: One_nat_def move_all.simps)

section \<open>Hydration: ascending order, the longest increasing subsequence stays, the rest moves once\<close>

text \<open>
  C2. For every child node list whose nodes carry pairwise distinct \<open>claim_order\<close> stamps,
  \<open>init_hydrate\<close>, on a container it has not reconciled before, returns, and
  \<^item> leaves the same children, in strictly ascending \<open>claim_order\<close>;
  \<^item> never moves a node of the longest increasing subsequence: there is a subsequence
    \<open>lis\<close> of the original child list with strictly ascending stamps, as long as any such
    subsequence can be, none of whose nodes is the node of an \<open>insertBefore\<close> call;
  \<^item> makes exactly the number of children minus the length of the longest increasing
    subsequence calls of \<open>insertBefore\<close>;
  \<^item> makes no call at all on a list that ascends already.

  The container is one that \<open>init_hydrate\<close> has not run on: the function runs once per
  container, and returns at once where \<open>hydrate_init\<close> is set. All list accesses of the model
  are within range on the way: the proof goes through the invariant \<open>tables_inv\<close> of the
  first loop, which makes every entry of \<open>m\<close> that is read a position of a child.
\<close>

theorem init_hydrate_reorders:
  assumes fresh: "\<not> hydrate_init target" and dist: "distinct (map claim_order (childNodes target))"
  shows "\<exists>nodes' ops lis.
           init_hydrate target = Some (target\<lparr>hydrate_init := True, childNodes := nodes'\<rparr>, ops) \<and>
           sorted_wrt (<) (map claim_order nodes') \<and>
           mset nodes' = mset (childNodes target) \<and>
           subseq lis (childNodes target) \<and> sorted_wrt (<) (map claim_order lis) \<and>
           (\<forall>ys. subseq ys (childNodes target) \<and> sorted_wrt (<) (map claim_order ys) \<longrightarrow>
                 length ys \<le> length lis) \<and>
           set (map fst ops) \<inter> set lis = {} \<and>
           length ops = length (childNodes target) - length lis \<and>
           (sorted_wrt (<) (map claim_order (childNodes target)) \<longrightarrow> ops = [])"
proof -
  define xs where "xs = childNodes target"
  obtain m p L where tab: "lis_tables xs = (m, p, L)" by (cases "lis_tables xs") auto
  from collect [OF dist [folded xs_def] tab]
  obtain js lis1 tm1 last1 where c: "inc xs (length xs) js" "length js = L"
    "\<forall>ks. inc xs (length xs) ks \<longrightarrow> length ks \<le> L"
    "walk xs p (m ! L + 1) (int (length xs) - 1) [] [] = Some (lis1, tm1, last1)"
    "rev lis1 = map ((!) xs) js"
    "fst (push_range xs last1 0 tm1) = map ((!) xs) (rev (others 0 (length xs) js))"
    by blast
  define lis where "lis = map ((!) xs) js"
  define ts where "ts = sort_key claim_order (map ((!) xs) (rev (others 0 (length xs) js)))"
  from reorder [OF dist [folded xs_def] c(1)]
  obtain nodes' ops where r: "move_all lis ts 0 xs [] = Some (nodes', ops)" "map fst ops = ts"
    "sorted_wrt (<) (map claim_order nodes')" "mset nodes' = mset xs"
    "set ts \<inter> set lis = {}" "length ts = length xs - length js"
    unfolding lis_def ts_def by blast
  obtain tm2 last2 where pr: "push_range xs last1 0 tm1 = (tm2, last2)"
    by (cases "push_range xs last1 0 tm1") auto
  with c(6) have tm2: "sort_key claim_order tm2 = ts" by (simp add: ts_def)
  have l1: "rev lis1 = lis" using c(5) by (simp add: lis_def)
  have run: "init_hydrate target = Some (target\<lparr>hydrate_init := True, childNodes := nodes'\<rparr>, ops)"
    using fresh
    by (simp add: init_hydrate_def Let_def xs_def [symmetric] tab c(4) pr tm2 l1 r(1))
  have best: "length ys \<le> length lis" if "subseq ys xs" "sorted_wrt (<) (map claim_order ys)" for ys
  proof -
    from subseq_inc [OF that] obtain ks where "inc xs (length xs) ks" "length ks = length ys"
      by blast
    moreover from this c(3) have "length ks \<le> L" by blast
    ultimately show ?thesis using c(2) by (simp add: lis_def)
  qed
  have len: "length ops = length xs - length lis"
    using r(2,6) by (metis length_map lis_def)
  have "ops = []" if "sorted_wrt (<) (map claim_order xs)"
  proof -
    have "subseq xs xs" by simp
    from best [OF this that] len show ?thesis by simp
  qed
  with run r(2,3,4,5) inc_subseq [OF c(1)] best len show ?thesis
    unfolding xs_def [symmetric] lis_def [symmetric]
    by (intro exI [of _ nodes'] exI [of _ ops] exI [of _ lis]) simp
qed

text \<open>
  The theorem at the stamps \<open>[2, 0, 1, 4, 3]\<close>, together with what the function computes
  there: two calls of \<open>insertBefore\<close>, the node stamped 2 before the node stamped 3 and
  the node stamped 4 at the end, after which the stamps read \<open>[0, 1, 2, 3, 4]\<close>;
  and at the ascending stamps \<open>[0, 1, 2, 3]\<close>, where no call is made.
\<close>

theorem init_hydrate_reorders_witness:
  "\<not> hydrate_init (stamped [2, 0, 1, 4, 3]) \<and>
   distinct (map claim_order (childNodes (stamped [2, 0, 1, 4, 3]))) \<and>
   (\<exists>nodes' ops lis.
      init_hydrate (stamped [2, 0, 1, 4, 3]) =
        Some ((stamped [2, 0, 1, 4, 3])\<lparr>hydrate_init := True, childNodes := nodes'\<rparr>, ops) \<and>
      sorted_wrt (<) (map claim_order nodes') \<and>
      mset nodes' = mset (childNodes (stamped [2, 0, 1, 4, 3])) \<and>
      subseq lis (childNodes (stamped [2, 0, 1, 4, 3])) \<and> sorted_wrt (<) (map claim_order lis) \<and>
      (\<forall>ys. subseq ys (childNodes (stamped [2, 0, 1, 4, 3])) \<and>
            sorted_wrt (<) (map claim_order ys) \<longrightarrow> length ys \<le> length lis) \<and>
      set (map fst ops) \<inter> set lis = {} \<and>
      length ops = length (childNodes (stamped [2, 0, 1, 4, 3])) - length lis) \<and>
   init_hydrate (stamped [2, 0, 1, 4, 3]) =
     Some (\<lparr>hydrate_init = True,
             childNodes = [stamp 1 0, stamp 2 1, stamp 0 2, stamp 4 3, stamp 3 4]\<rparr>,
           [(stamp 0 2, Some (stamp 4 3)), (stamp 3 4, None)]) \<and>
   \<not> hydrate_init (stamped [0, 1, 2, 3]) \<and>
   distinct (map claim_order (childNodes (stamped [0, 1, 2, 3]))) \<and>
   sorted_wrt (<) (map claim_order (childNodes (stamped [0, 1, 2, 3]))) \<and>
   (\<exists>nodes'. init_hydrate (stamped [0, 1, 2, 3]) =
        Some ((stamped [0, 1, 2, 3])\<lparr>hydrate_init := True, childNodes := nodes'\<rparr>, []))"
proof -
  have a: "\<not> hydrate_init (stamped [2, 0, 1, 4, 3])"
    "distinct (map claim_order (childNodes (stamped [2, 0, 1, 4, 3])))"
    by (simp_all add: stamped_def)
  have b: "\<not> hydrate_init (stamped [0, 1, 2, 3])"
    "distinct (map claim_order (childNodes (stamped [0, 1, 2, 3])))"
    "sorted_wrt (<) (map claim_order (childNodes (stamped [0, 1, 2, 3])))"
    by (simp_all add: stamped_def)
  from init_hydrate_reorders [OF a]
  have 1: "\<exists>nodes' ops lis.
      init_hydrate (stamped [2, 0, 1, 4, 3]) =
        Some ((stamped [2, 0, 1, 4, 3])\<lparr>hydrate_init := True, childNodes := nodes'\<rparr>, ops) \<and>
      sorted_wrt (<) (map claim_order nodes') \<and>
      mset nodes' = mset (childNodes (stamped [2, 0, 1, 4, 3])) \<and>
      subseq lis (childNodes (stamped [2, 0, 1, 4, 3])) \<and> sorted_wrt (<) (map claim_order lis) \<and>
      (\<forall>ys. subseq ys (childNodes (stamped [2, 0, 1, 4, 3])) \<and>
            sorted_wrt (<) (map claim_order ys) \<longrightarrow> length ys \<le> length lis) \<and>
      set (map fst ops) \<inter> set lis = {} \<and>
      length ops = length (childNodes (stamped [2, 0, 1, 4, 3])) - length lis"
    by blast
  from init_hydrate_reorders [OF b(1,2)] b(3)
  have 2: "\<exists>nodes'. init_hydrate (stamped [0, 1, 2, 3]) =
        Some ((stamped [0, 1, 2, 3])\<lparr>hydrate_init := True, childNodes := nodes'\<rparr>, [])"
    by blast
  from a b 1 2 ex_init_hydrate show ?thesis by (intro conjI) assumption+
qed

end
